theory Spec2Isabelle
  imports Complex_Main
begin

section \<open>Numbers\<close>

text \<open>
  A JavaScript number is a double (IEEE 754 binary64), modelled as the \<^typ>\<open>real\<close> it
  denotes. An arithmetic operation of the source returns the exact result rounded to the
  nearest double, ties to the even mantissa, with gradual underflow. \<open>fl\<close> is that
  rounding: \<open>binade v\<close> is the exponent of \<open>v\<close> (at least -1022, the exponent of the
  subnormal numbers), the doubles around \<open>v\<close> are the multiples of
  \<open>2 powr (binade v - 52)\<close>, and \<open>roundHalfEven\<close> picks the nearest multiple.

  In the spline utilities every operation is written with its rounding, \<open>fl (a + b)\<close>
  for \<open>a + b\<close> and \<open>fl (sqrt a)\<close> for \<open>Math.sqrt(a)\<close>: what they return depends on it.
  Negation, \<open>Math.floor\<close>, \<open>Math.min\<close> and \<open>Math.max\<close> are exact, and so is the
  arithmetic of array indices, which are small integers. Overflow is not modelled (\<open>fl\<close>
  has no largest value): the source's intermediate results stay far below \<open>2 powr 1024\<close>
  for station coordinates between 0 and 100, the range a station's coordinates have.
  The one place where the modelled code can produce NaN from finite operands is the
  division \<open>0 / 0\<close>; it is written out where it can happen (\<open>generateSplinePath\<close> with no
  segments, \<open>computeArcLengths\<close> on a path of length zero), as the value \<open>None\<close>.

  The tracker's own arithmetic (elapsed time, progress, particle life, gap) is kept
  exact: what is stated about it is the formula the source evaluates.
\<close>

definition roundHalfEven :: "real \<Rightarrow> int" where
  "roundHalfEven r =
     (let f = \<lfloor>r\<rfloor>; d = r - real_of_int f
      in if d < 1 / 2 then f else if 1 / 2 < d then f + 1 else if even f then f else f + 1)"

definition binade :: "real \<Rightarrow> int" where
  "binade v = max (- 1022) \<lfloor>log 2 \<bar>v\<bar>\<rfloor>"

definition fl :: "real \<Rightarrow> real" where
  "fl v =
     (if v = 0 then 0
      else (let q = 2 powr real_of_int (binade v - 52)
            in real_of_int (roundHalfEven (v / q)) * q))"

section \<open>spline-utils.js\<close>

text \<open>
  A point is any object with numeric \<open>x\<close> and \<open>y\<close>; a station point carries \<open>key\<close>,
  \<open>name\<close> and \<open>num\<close> as well. The spline functions read \<open>x\<close> and \<open>y\<close> only, so they
  take any extension of the point record.
\<close>

record point =
  pt_x :: real
  pt_y :: real

record station = point +
  key :: string
  name :: string
  num :: int

definition xy :: "'a point_scheme \<Rightarrow> point" where
  "xy p = \<lparr>pt_x = pt_x p, pt_y = pt_y p\<rparr>"

text \<open>
  \<open>catmullRomPoint\<close> evaluates one expression for \<open>x\<close> and again for \<open>y\<close>:
  \<open>catmullRomCoord\<close> is that expression on the four coordinates \<open>c0 .. c3\<close>, sums and
  differences associated to the left as JavaScript does.
\<close>

definition catmullRomCoord :: "real \<Rightarrow> real \<Rightarrow> real \<Rightarrow> real \<Rightarrow> real \<Rightarrow> real \<Rightarrow> real \<Rightarrow> real" where
  "catmullRomCoord t t2 t3 c0 c1 c2 c3 =
     fl (0.5 *
       fl (fl (fl (fl (2 * c1)
                   + fl (fl (- c0 + c2) * t))
               + fl (fl (fl (fl (fl (2 * c0) - fl (5 * c1)) + fl (4 * c2)) - c3) * t2))
           + fl (fl (fl (fl (- c0 + fl (3 * c1)) - fl (3 * c2)) + c3) * t3)))"

definition catmullRomPoint :: "real \<Rightarrow> 'a point_scheme \<Rightarrow> 'a point_scheme \<Rightarrow> 'a point_scheme
    \<Rightarrow> 'a point_scheme \<Rightarrow> point" where
  "catmullRomPoint t p0 p1 p2 p3 =
     (let t2 = fl (t * t); t3 = fl (t2 * t) in
      \<lparr>pt_x = catmullRomCoord t t2 t3 (pt_x p0) (pt_x p1) (pt_x p2) (pt_x p3),
       pt_y = catmullRomCoord t t2 t3 (pt_y p0) (pt_y p1) (pt_y p2) (pt_y p3)\<rparr>)"

text \<open>
  \<open>generateSplinePath(points, segments)\<close>. Each \<open>for\<close> loop pushes one element per
  index, so it is the \<open>map\<close> of its body over the index range. With two points and
  \<open>segments = 0\<close> the source computes \<open>t = 0 / 0\<close> and returns one point of NaN
  coordinates: \<open>None\<close>.
\<close>

definition linearPoint :: "'a point_scheme list \<Rightarrow> nat \<Rightarrow> nat \<Rightarrow> point" where
  "linearPoint points segments i =
     (let t = fl (real i / real segments) in
      \<lparr>pt_x = fl (pt_x (points ! 0) + fl (fl (pt_x (points ! 1) - pt_x (points ! 0)) * t)),
       pt_y = fl (pt_y (points ! 0) + fl (fl (pt_y (points ! 1) - pt_y (points ! 0)) * t))\<rparr>)"

definition splineSegment :: "'a point_scheme list \<Rightarrow> nat \<Rightarrow> nat \<Rightarrow> point list" where
  "splineSegment points segments i =
     (let n = length points;
          p0 = points ! nat (max 0 (int i - 1));
          p1 = points ! i;
          p2 = points ! (i + 1);
          p3 = points ! min (n - 1) (i + 2)
      in map (\<lambda>s. catmullRomPoint (fl (real s / real segments)) p0 p1 p2 p3) [0..<segments])"

definition generateSplinePath :: "'a point_scheme list \<Rightarrow> nat \<Rightarrow> point list option" where
  "generateSplinePath points segments =
     (if length points < 2 then Some (map xy points)
      else if length points = 2 then
        (if segments = 0 then None
         else Some (map (linearPoint points segments) [0..<segments + 1]))
      else
        (let n = length points in
         Some (concat (map (splineSegment points segments) [0..<n - 1])
               @ [xy (points ! (n - 1))])))"

definition getPositionAtProgress :: "point list \<Rightarrow> real \<Rightarrow> point" where
  "getPositionAtProgress splinePath progress =
     (if length splinePath = 0 then \<lparr>pt_x = 50, pt_y = 50\<rparr>
      else
        (let clamped = max 0 (min 1 progress);
             idx = fl (clamped * real (length splinePath - 1));
             lower = nat \<lfloor>idx\<rfloor>;
             upper = min (lower + 1) (length splinePath - 1);
             frac = fl (idx - real lower)
         in \<lparr>pt_x = fl (pt_x (splinePath ! lower)
                    + fl (fl (pt_x (splinePath ! upper) - pt_x (splinePath ! lower)) * frac)),
             pt_y = fl (pt_y (splinePath ! lower)
                    + fl (fl (pt_y (splinePath ! upper) - pt_y (splinePath ! lower)) * frac))\<rparr>))"

text \<open>
  \<open>computeArcLengths(splinePath)\<close>. The loop walks the path from index 1, carrying the
  previous point, the running total (\<open>tot\<close>, the source's \<open>total\<close>) and the list of
  running totals. The last line
  divides every running total by the total. Every running total lies between 0 and the
  total (lemma \<open>arcLoop_sorted\<close> below), so when the total is 0 each quotient is \<open>0 / 0\<close>,
  NaN in the source: \<open>None\<close>. \<open>arcTotal\<close> names the total the loop ends with.
\<close>

fun arcLoop :: "point \<Rightarrow> point list \<Rightarrow> real \<Rightarrow> real list \<Rightarrow> real list \<times> real" where
  "arcLoop prev [] tot lengths = (lengths, tot)"
| "arcLoop prev (p # ps) tot lengths =
     (let dx = fl (pt_x p - pt_x prev);
          dy = fl (pt_y p - pt_y prev);
          tot' = fl (tot + fl (sqrt (fl (fl (dx * dx) + fl (dy * dy)))))
      in arcLoop p ps tot' (lengths @ [tot']))"

definition arcTotal :: "point list \<Rightarrow> real" where
  "arcTotal splinePath = snd (arcLoop (hd splinePath) (tl splinePath) 0 [0])"

text \<open>
  \<open>arcStep prev p\<close> is what one round of the loop adds to the total: the rounded distance
  from \<open>prev\<close> to \<open>p\<close> (lemma \<open>arcLoop_Cons\<close> below).
\<close>

definition arcStep :: "point \<Rightarrow> point \<Rightarrow> real" where
  "arcStep prev p =
     fl (sqrt (fl (fl (fl (pt_x p - pt_x prev) * fl (pt_x p - pt_x prev))
                 + fl (fl (pt_y p - pt_y prev) * fl (pt_y p - pt_y prev)))))"

definition computeArcLengths :: "point list \<Rightarrow> real option list" where
  "computeArcLengths splinePath =
     (if length splinePath < 2 then [Some 0]
      else
        (let (lengths, tot) = arcLoop (hd splinePath) (tl splinePath) 0 [0]
         in map (\<lambda>l. if tot = 0 then None else Some (fl (l / tot))) lengths))"

text \<open>
  \<open>stationToProgress\<close>. \<open>arcLengths[clamped] || 0\<close>: reading outside the array gives
  \<open>undefined\<close>, and \<open>undefined\<close>, NaN and 0 are all falsy, so each of them yields 0.
\<close>

definition arrayGet :: "'a list \<Rightarrow> int \<Rightarrow> 'a option" where
  "arrayGet xs i = (if 0 \<le> i \<and> i < int (length xs) then Some (xs ! nat i) else None)"

definition stationToProgress :: "nat \<Rightarrow> nat \<Rightarrow> real option list \<Rightarrow> nat \<Rightarrow> real" where
  "stationToProgress stationIndex totalStations arcLengths segmentsPerStation =
     (if totalStations \<le> 1 then 0
      else
        (let splineIdx = int stationIndex * int segmentsPerStation;
             clamped = min splineIdx (int (length arcLengths) - 1)
         in case arrayGet arcLengths clamped of
              None \<Rightarrow> 0
            | Some None \<Rightarrow> 0
            | Some (Some v) \<Rightarrow> (if v = 0 then 0 else v)))"

text \<open>
  \<open>buildStationPoints(coords, includeSpecial)\<close>. The argument is any JavaScript value:
  plain data, as JSON or a JSONB column gives it. An object is its list of own
  properties. \<open>JSON.parse\<close> belongs to the platform, not to this repository: it is the
  parameter \<open>JSON_parse\<close>, which returns the parsed value or the \<open>SyntaxError\<close> it throws.
\<close>

datatype js_value =
    JUndefined
  | JNull
  | JBool bool
  | JNum real
  | JStr string
  | JArr "js_value list"
  | JObj "(string \<times> js_value) list"

datatype js_error = TypeError | SyntaxError

fun truthy :: "js_value \<Rightarrow> bool" where
  "truthy JUndefined = False"
| "truthy JNull = False"
| "truthy (JBool b) = b"
| "truthy (JNum r) = (r \<noteq> 0)"
| "truthy (JStr s) = (s \<noteq> [])"
| "truthy (JArr vs) = True"
| "truthy (JObj kvs) = True"

text \<open>
  Reading a property: of \<open>undefined\<close> or \<open>null\<close> it throws a \<open>TypeError\<close>; of an object it
  gives the property or \<open>undefined\<close>; of a primitive or an array it gives \<open>undefined\<close>
  for every key read here (\<open>start_finish\<close>, \<open>station_1\<close> .. \<open>station_8\<close>, \<open>roxzone\<close>, \<open>x\<close>,
  \<open>y\<close>, \<open>name\<close>: none is a built-in property).
\<close>

fun getProp :: "js_value \<Rightarrow> string \<Rightarrow> js_error + js_value" where
  "getProp JUndefined k = Inl TypeError"
| "getProp JNull k = Inl TypeError"
| "getProp (JObj kvs) k = Inr (case map_of kvs k of None \<Rightarrow> JUndefined | Some v \<Rightarrow> v)"
| "getProp v k = Inr JUndefined"

record waypoint =
  wx :: js_value
  wy :: js_value
  wkey :: string
  wname :: js_value
  wnum :: int

text \<open>Decimal digits of a number, as \<open>toString\<close> and template strings print an integer.\<close>

fun digitsOf :: "nat \<Rightarrow> string" where
  "digitsOf n =
     (if n < 10 then [''0123456789'' ! n]
      else digitsOf (n div 10) @ [''0123456789'' ! (n mod 10)])"

definition intToString :: "int \<Rightarrow> string" where
  "intToString i = (if i < 0 then ''-'' @ digitsOf (nat (- i)) else digitsOf (nat i))"

text \<open>A statement that may throw, followed by the rest of the function body.\<close>

definition thenE :: "'e + 'a \<Rightarrow> ('a \<Rightarrow> 'e + 'b) \<Rightarrow> 'e + 'b" where
  "thenE m f = (case m of Inl e \<Rightarrow> Inl e | Inr v \<Rightarrow> f v)"

text \<open>The object literal built from a truthy entry \<open>s\<close>: \<open>{x: s.x, y: s.y, key, name, num}\<close>.\<close>

definition entryPoint :: "js_value \<Rightarrow> string \<Rightarrow> (js_value \<Rightarrow> js_error + js_value) \<Rightarrow> int
    \<Rightarrow> js_error + waypoint" where
  "entryPoint s k nameOf n =
     thenE (getProp s ''x'') (\<lambda>vx.
     thenE (getProp s ''y'') (\<lambda>vy.
     thenE (nameOf s) (\<lambda>vn.
       Inr \<lparr>wx = vx, wy = vy, wkey = k, wname = vn, wnum = n\<rparr>)))"

fun stationLoop :: "js_value \<Rightarrow> nat list \<Rightarrow> waypoint list \<Rightarrow> js_error + waypoint list" where
  "stationLoop parsed [] points = Inr points"
| "stationLoop parsed (i # rest) points =
     thenE (getProp parsed (''station_'' @ digitsOf i)) (\<lambda>s.
       if truthy s then
         thenE (entryPoint s (''station_'' @ digitsOf i) (\<lambda>v. getProp v ''name'') (int i))
           (\<lambda>p. stationLoop parsed rest (points @ [p]))
       else stationLoop parsed rest points)"

definition addStartFinish :: "js_value \<Rightarrow> bool \<Rightarrow> js_error + waypoint list" where
  "addStartFinish parsed includeSpecial =
     (if \<not> includeSpecial then Inr []
      else
        thenE (getProp parsed ''start_finish'') (\<lambda>sf.
          if truthy sf then
            thenE (entryPoint sf ''start_finish'' (\<lambda>v. Inr (JStr ''Start/Finish'')) 0)
              (\<lambda>p. Inr [p])
          else Inr []))"

definition addRoxzone :: "js_value \<Rightarrow> bool \<Rightarrow> waypoint list \<Rightarrow> js_error + waypoint list" where
  "addRoxzone parsed includeSpecial points =
     (if \<not> includeSpecial then Inr points
      else
        thenE (getProp parsed ''roxzone'') (\<lambda>rz.
          if truthy rz then
            thenE (entryPoint rz ''roxzone'' (\<lambda>v. Inr (JStr ''ROXZONE'')) (- 1))
              (\<lambda>p. let mid = length points div 2
                    in Inr (take mid points @ [p] @ drop mid points))
          else Inr points))"

definition parseCoords :: "(string \<Rightarrow> js_error + js_value) \<Rightarrow> js_value \<Rightarrow> js_error + js_value" where
  "parseCoords JSON_parse coords =
     (case coords of JStr txt \<Rightarrow> JSON_parse txt | _ \<Rightarrow> Inr coords)"

definition buildStationPoints :: "(string \<Rightarrow> js_error + js_value) \<Rightarrow> js_value \<Rightarrow> bool
    \<Rightarrow> js_error + waypoint list" where
  "buildStationPoints JSON_parse coords includeSpecial =
     thenE (parseCoords JSON_parse coords) (\<lambda>parsed.
     thenE (addStartFinish parsed includeSpecial) (\<lambda>points0.
     thenE (stationLoop parsed [1..<9] points0) (\<lambda>points1.
       addRoxzone parsed includeSpecial points1)))"

section \<open>course-tracker.js\<close>

text \<open>
  The \<open>CourseTracker\<close> object, without its rendering collaborators (canvas, context,
  map image, resize observer): \<open>_draw\<close> and the functions it calls read the fields below
  and write none of them. \<open>stationPoints\<close> is what \<open>buildStationPoints\<close> returned, with
  numeric coordinates.

  The two callbacks \<open>onStationReached\<close> and \<open>onComplete\<close> are the field \<open>events\<close>: the
  calls the tracker makes, in order. \<open>StationReached i n sp\<close> is the call
  \<open>onStationReached(station.num, splitTime)\<close> made at loop index \<open>i\<close>.
\<close>

record split =
  stationNum :: int
  timeMs :: real
  splitName :: string

record particle =
  part_x :: real
  part_y :: real
  life :: real
  psize :: real
  vx :: real
  vy :: real

record popup =
  popupText :: string
  opacity :: real
  popup_x :: real
  popup_y :: real

datatype event = StationReached nat int "split option" | Complete

record tracker =
  stationPoints :: "station list"
  splits :: "split list"
  ghostSplits :: "split list"
  ghostLabel :: string
  totalTimeMs :: real
  splitCumulative :: "real list"
  ghostTotalMs :: real
  ghostCumulative :: "real list"
  isPlaying :: bool
  progress :: real
  elapsedMs :: real
  speed :: real
  showGhost :: bool
  lastTimestamp :: "real option"
  animFrameId :: "nat option"
  particles :: "particle list"
  ghostParticles :: "particle list"
  activeSplit :: "popup option"
  lastStationIndex :: int
  events :: "event list"

text \<open>
  \<open>splinePath\<close>, \<open>arcLengths\<close> and \<open>stationProgresses\<close> are assigned once, in the
  constructor, from \<open>stationPoints\<close>, and no method assigns any of the four again: they
  are functions of \<open>stationPoints\<close>. The constructor passes 30 segments, for which
  \<open>generateSplinePath\<close> always returns a path.
\<close>

definition splinePath :: "tracker \<Rightarrow> point list" where
  "splinePath s = (case generateSplinePath (stationPoints s) 30 of Some path \<Rightarrow> path | None \<Rightarrow> [])"

definition arcLengths :: "tracker \<Rightarrow> real option list" where
  "arcLengths s = computeArcLengths (splinePath s)"

definition stationProgresses :: "tracker \<Rightarrow> real list" where
  "stationProgresses s =
     map (\<lambda>i. stationToProgress i (length (stationPoints s)) (arcLengths s) 30)
       [0..<length (stationPoints s)]"

text \<open>The cumulative split times: \<open>cum += s.timeMs; push(cum)\<close>.\<close>

fun cumLoop :: "split list \<Rightarrow> real \<Rightarrow> real list \<Rightarrow> real list \<times> real" where
  "cumLoop [] cum acc = (acc, cum)"
| "cumLoop (sp # rest) cum acc = (let cum' = cum + timeMs sp in cumLoop rest cum' (acc @ [cum']))"

definition cumulative :: "split list \<Rightarrow> real list \<times> real" where
  "cumulative sps = (if length sps > 0 then cumLoop sps 0 [] else ([], 0))"

text \<open>
  The constructor. \<open>options.splits || []\<close>, \<open>options.ghostSplits || []\<close> and
  \<open>options.ghostLabel || 'PRO'\<close>: a missing option is \<open>None\<close>, and the empty string is
  falsy.
\<close>

definition CourseTracker :: "station list \<Rightarrow> split list option \<Rightarrow> split list option
    \<Rightarrow> string option \<Rightarrow> tracker" where
  "CourseTracker pts optSplits optGhostSplits optGhostLabel =
     (let sps = (case optSplits of None \<Rightarrow> [] | Some l \<Rightarrow> l);
          gsps = (case optGhostSplits of None \<Rightarrow> [] | Some l \<Rightarrow> l);
          glabel = (case optGhostLabel of None \<Rightarrow> ''PRO'' | Some l \<Rightarrow> if l = [] then ''PRO'' else l)
      in \<lparr>stationPoints = pts,
          splits = sps,
          ghostSplits = gsps,
          ghostLabel = glabel,
          totalTimeMs = snd (cumulative sps),
          splitCumulative = fst (cumulative sps),
          ghostTotalMs = snd (cumulative gsps),
          ghostCumulative = fst (cumulative gsps),
          isPlaying = False,
          progress = 0,
          elapsedMs = 0,
          speed = 10,
          showGhost = (length gsps > 0),
          lastTimestamp = None,
          animFrameId = None,
          particles = [],
          ghostParticles = [],
          activeSplit = None,
          lastStationIndex = - 1,
          events = []\<rparr>)"

text \<open>
  \<open>_formatTime(ms)\<close>. \<open>%\<close> takes the sign of the dividend; \<open>padStart(2, '0')\<close> pads on
  the left to two characters.
\<close>

definition jsRem :: "int \<Rightarrow> int \<Rightarrow> int" where
  "jsRem a b = (if a < 0 then - ((- a) mod \<bar>b\<bar>) else a mod \<bar>b\<bar>)"

definition padStart2 :: "string \<Rightarrow> string" where
  "padStart2 str = replicate (2 - length str) CHR ''0'' @ str"

definition formatTime :: "real \<Rightarrow> string" where
  "formatTime ms =
     (let totalSec = \<lfloor>ms / 1000\<rfloor>;
          m = \<lfloor>real_of_int totalSec / 60\<rfloor>;
          sec = jsRem totalSec 60
      in padStart2 (intToString m) @ '':'' @ padStart2 (intToString sec))"

text \<open>
  What one call of \<open>_tick\<close> takes from its environment: \<open>performance.now()\<close>, the id
  that \<open>requestAnimationFrame\<close> returns, and the six values \<open>Math.random()\<close> returns, in
  call order (size, vx, vy of the athlete's particle, then of the ghost's).
\<close>

record env =
  now :: real
  frameId :: nat
  rndSize :: real
  rndVx :: real
  rndVy :: real
  rndGhostSize :: real
  rndGhostVx :: real
  rndGhostVy :: real

text \<open>
  \<open>_checkStations\<close>: the loop over \<open>i\<close> from \<open>i\<close> up to \<open>stationProgresses.length\<close>;
  \<open>k\<close> counts the iterations left. \<open>stationPoints\<close> and \<open>stationProgresses\<close> have the
  same length, so \<open>stationPoints[i]\<close> is always a station; \<open>splits[i]\<close> beyond the end
  is \<open>undefined\<close> and then no popup is set.
\<close>

definition reachStation :: "nat \<Rightarrow> tracker \<Rightarrow> tracker" where
  "reachStation i s =
     (let s1 = s\<lparr>lastStationIndex := int i\<rparr>;
          st = stationPoints s1 ! i;
          splitTime = arrayGet (splits s1) (int i);
          s2 = (case splitTime of
                  None \<Rightarrow> s1
                | Some sp \<Rightarrow>
                    (let pos = getPositionAtProgress (splinePath s1) (stationProgresses s1 ! i)
                     in s1\<lparr>activeSplit :=
                           Some \<lparr>popupText = name st @ '': '' @ formatTime (timeMs sp),
                                 opacity = 1,
                                 popup_x = pt_x pos,
                                 popup_y = pt_y pos\<rparr>\<rparr>))
      in s2\<lparr>events := events s2 @ [StationReached i (num st) splitTime]\<rparr>)"

fun checkStationsLoop :: "nat \<Rightarrow> nat \<Rightarrow> tracker \<Rightarrow> tracker" where
  "checkStationsLoop i 0 s = s"
| "checkStationsLoop i (Suc k) s =
     checkStationsLoop (i + 1) k
       (if progress s \<ge> stationProgresses s ! i \<and> int i > lastStationIndex s
        then reachStation i s else s)"

definition checkStations :: "tracker \<Rightarrow> tracker" where
  "checkStations s = checkStationsLoop 0 (length (stationProgresses s)) s"

text \<open>
  \<open>_updateParticles(dt)\<close>. The update loop runs \<open>i\<close> from the last index down to 0
  (\<open>cullLoop (i + 1)\<close> handles index \<open>i\<close>), writes the particle back and splices it out
  when its life is used up. \<open>shift()\<close> removes the first element. \<open>updatePool\<close> is the
  push, the update loop and the \<open>while\<close> loop, which the source writes once for each
  pool; \<open>athleteParticle\<close> and \<open>ghostParticle\<close> are the two object literals pushed
  (\<open>ghostParticle\<close> is built only where \<open>ghostTotalMs > 0\<close>).
\<close>

definition moveParticle :: "real \<Rightarrow> real \<Rightarrow> particle \<Rightarrow> particle" where
  "moveParticle dt window p =
     p\<lparr>life := life p - dt / window, part_x := part_x p + vx p, part_y := part_y p + vy p\<rparr>"

fun cullLoop :: "nat \<Rightarrow> real \<Rightarrow> real \<Rightarrow> particle list \<Rightarrow> particle list" where
  "cullLoop 0 dt window ps = ps"
| "cullLoop (Suc i) dt window ps =
     (let p = moveParticle dt window (ps ! i);
          ps1 = ps[i := p]
      in cullLoop i dt window (if life p \<le> 0 then take i ps1 @ drop (Suc i) ps1 else ps1))"

fun shiftLoop :: "nat \<Rightarrow> 'a list \<Rightarrow> 'a list" where
  "shiftLoop cap ps = (if length ps > cap then shiftLoop cap (tl ps) else ps)"

definition updatePool :: "nat \<Rightarrow> real \<Rightarrow> real \<Rightarrow> particle \<Rightarrow> particle list \<Rightarrow> particle list" where
  "updatePool cap dt window fresh ps =
     (let ps1 = ps @ [fresh];
          ps2 = cullLoop (length ps1) dt window ps1
      in shiftLoop cap ps2)"

definition athleteParticle :: "env \<Rightarrow> tracker \<Rightarrow> particle" where
  "athleteParticle e s =
     (let pos = getPositionAtProgress (splinePath s) (progress s)
      in \<lparr>part_x = pt_x pos, part_y = pt_y pos, life = 1,
          psize = 3 + rndSize e * 2,
          vx = (rndVx e - 0.5) * 0.3,
          vy = (rndVy e - 0.5) * 0.3\<rparr>)"

definition ghostParticle :: "env \<Rightarrow> tracker \<Rightarrow> particle" where
  "ghostParticle e s =
     (let ghostProgress = min 1 (elapsedMs s / ghostTotalMs s);
          gPos = getPositionAtProgress (splinePath s) ghostProgress
      in \<lparr>part_x = pt_x gPos, part_y = pt_y gPos, life = 1,
          psize = 2 + rndGhostSize e * 1.5,
          vx = (rndGhostVx e - 0.5) * 0.2,
          vy = (rndGhostVy e - 0.5) * 0.2\<rparr>)"

definition updateParticles :: "real \<Rightarrow> env \<Rightarrow> tracker \<Rightarrow> tracker" where
  "updateParticles dt e s =
     (let s1 = s\<lparr>particles := updatePool 30 dt 800 (athleteParticle e s) (particles s)\<rparr>
      in if showGhost s1 \<and> ghostTotalMs s1 > 0
         then s1\<lparr>ghostParticles := updatePool 20 dt 600 (ghostParticle e s1) (ghostParticles s1)\<rparr>
         else s1)"

text \<open>
  The public operations. \<open>requestAnimationFrame\<close> ids are not zero, so
  \<open>if (this.animFrameId)\<close> tests for a pending frame; \<open>this.lastTimestamp || now\<close> takes
  \<open>now\<close> for \<open>null\<close> and for 0.
\<close>

definition pause :: "tracker \<Rightarrow> tracker" where
  "pause s =
     (let s1 = s\<lparr>isPlaying := False\<rparr>
      in case animFrameId s1 of
           None \<Rightarrow> s1
         | Some fid \<Rightarrow> if fid \<noteq> 0 then s1\<lparr>animFrameId := None\<rparr> else s1)"

definition restart :: "tracker \<Rightarrow> tracker" where
  "restart s =
     (pause s)\<lparr>progress := 0, elapsedMs := 0, particles := [], ghostParticles := [],
               activeSplit := None, lastStationIndex := - 1\<rparr>"

definition seekTo :: "real \<Rightarrow> tracker \<Rightarrow> tracker" where
  "seekTo p s =
     (let s1 = s\<lparr>progress := max 0 (min 1 p)\<rparr>;
          s2 = s1\<lparr>elapsedMs := progress s1 * totalTimeMs s1\<rparr>
      in s2\<lparr>particles := [], ghostParticles := []\<rparr>)"

definition setSpeed :: "real \<Rightarrow> tracker \<Rightarrow> tracker" where
  "setSpeed multiplier s = s\<lparr>speed := multiplier\<rparr>"

definition setGhostSplits :: "split list option \<Rightarrow> string option \<Rightarrow> tracker \<Rightarrow> tracker" where
  "setGhostSplits optSplits optLabel s =
     (let gsps = (case optSplits of None \<Rightarrow> [] | Some l \<Rightarrow> l);
          glabel = (case optLabel of None \<Rightarrow> ''PRO'' | Some l \<Rightarrow> if l = [] then ''PRO'' else l)
      in s\<lparr>ghostSplits := gsps,
           ghostLabel := glabel,
           ghostCumulative := fst (cumulative gsps),
           ghostTotalMs := snd (cumulative gsps),
           showGhost := (length gsps > 0)\<rparr>)"

definition toggleGhost :: "tracker \<Rightarrow> tracker" where
  "toggleGhost s = s\<lparr>showGhost := \<not> showGhost s\<rparr>"

definition tickDelta :: "env \<Rightarrow> tracker \<Rightarrow> real" where
  "tickDelta e s =
     now e - (case lastTimestamp s of None \<Rightarrow> now e | Some t \<Rightarrow> if t = 0 then now e else t)"

definition fadePopup :: "real \<Rightarrow> tracker \<Rightarrow> tracker" where
  "fadePopup dt s =
     (case activeSplit s of
        None \<Rightarrow> s
      | Some a \<Rightarrow>
          (let a' = a\<lparr>opacity := opacity a - dt / 1500\<rparr>
           in if opacity a' \<le> 0 then s\<lparr>activeSplit := None\<rparr>
              else s\<lparr>activeSplit := Some a'\<rparr>))"

definition tick :: "env \<Rightarrow> tracker \<Rightarrow> tracker" where
  "tick e s =
     (if \<not> isPlaying s then s
      else
        (let dt = tickDelta e s;
             s1 = s\<lparr>lastTimestamp := Some (now e)\<rparr>;
             s2 = s1\<lparr>elapsedMs := elapsedMs s1 + dt * speed s1\<rparr>;
             s3 = (if totalTimeMs s2 > 0
                   then s2\<lparr>progress := min 1 (elapsedMs s2 / totalTimeMs s2)\<rparr> else s2);
             s4 = checkStations s3;
             s5 = updateParticles dt e s4;
             s6 = fadePopup dt s5
         in if progress s6 \<ge> 1
            then s6\<lparr>isPlaying := False, events := events s6 @ [Complete]\<rparr>
            else s6\<lparr>animFrameId := Some (frameId e)\<rparr>))"

text \<open>
  \<open>play()\<close> reads the clock itself (\<open>t0\<close>) and then calls \<open>_tick\<close>, which reads it again
  (\<open>now e\<close>).
\<close>

definition play :: "real \<Rightarrow> env \<Rightarrow> tracker \<Rightarrow> tracker" where
  "play t0 e s =
     (if isPlaying s then s
      else
        (let s1 = (if progress s \<ge> 1 then restart s else s);
             s2 = s1\<lparr>isPlaying := True\<rparr>;
             s3 = s2\<lparr>lastTimestamp := Some t0\<rparr>
         in tick e s3))"






text \<open>A session: the public operations and the animation frames, in the order they happen.\<close>

datatype command =
    Play real env
  | Pause
  | Restart
  | SeekTo real
  | SetSpeed real
  | SetGhostSplits "split list option" "string option"
  | ToggleGhost
  | Frame env

fun exec :: "command \<Rightarrow> tracker \<Rightarrow> tracker" where
  "exec (Play t0 e) s = play t0 e s"
| "exec Pause s = pause s"
| "exec Restart s = restart s"
| "exec (SeekTo p) s = seekTo p s"
| "exec (SetSpeed m) s = setSpeed m s"
| "exec (SetGhostSplits sps l) s = setGhostSplits sps l s"
| "exec ToggleGhost s = toggleGhost s"
| "exec (Frame e) s = tick e s"

fun run :: "command list \<Rightarrow> tracker \<Rightarrow> tracker" where
  "run [] s = s"
| "run (c # cs) s = run cs (exec c s)"

text \<open>
  Two views of \<open>_tick\<close> used in the proofs: \<open>tickBody\<close> is its body up to the completion
  check; \<open>timeStep\<close> is its first three assignments (timestamp, elapsed time, progress).
\<close>

definition tickBody :: "env \<Rightarrow> tracker \<Rightarrow> tracker" where
  "tickBody e s =
        (let dt = tickDelta e s;
             s1 = s\<lparr>lastTimestamp := Some (now e)\<rparr>;
             s2 = s1\<lparr>elapsedMs := elapsedMs s1 + dt * speed s1\<rparr>;
             s3 = (if totalTimeMs s2 > 0
                   then s2\<lparr>progress := min 1 (elapsedMs s2 / totalTimeMs s2)\<rparr> else s2);
             s4 = checkStations s3;
             s5 = updateParticles dt e s4
         in fadePopup dt s5)"

definition timeStep :: "env \<Rightarrow> tracker \<Rightarrow> tracker" where
  "timeStep e s =
     s\<lparr>lastTimestamp := Some (now e),
       elapsedMs := elapsedMs s + tickDelta e s * speed s,
       progress := (if totalTimeMs s > 0
                    then min 1 ((elapsedMs s + tickDelta e s * speed s) / totalTimeMs s)
                    else progress s)\<rparr>"


text \<open>
  Observations on a run, for the statements about station crossings. \<open>firedIndices\<close>
  are the loop indices of the \<open>onStationReached\<close> calls in a list of calls.
  \<open>restarts c s\<close> says that command \<open>c\<close> in state \<open>s\<close> runs \<open>restart()\<close> (directly, or
  through \<open>play()\<close> at completion), which begins a new play cycle; \<open>sameCycle cs s\<close> says
  that no command of \<open>cs\<close>, run from \<open>s\<close>, does. \<open>crossed s i k\<close> are the indices among
  \<open>i, ..., i + k - 1\<close> whose test in \<open>_checkStations\<close> holds in state \<open>s\<close>.
\<close>

fun firedIndices :: "event list \<Rightarrow> nat list" where
  "firedIndices [] = []"
| "firedIndices (StationReached i n sp # evs) = i # firedIndices evs"
| "firedIndices (Complete # evs) = firedIndices evs"

fun restarts :: "command \<Rightarrow> tracker \<Rightarrow> bool" where
  "restarts Restart s = True"
| "restarts (Play t0 e) s = (\<not> isPlaying s \<and> progress s \<ge> 1)"
| "restarts c s = False"

fun sameCycle :: "command list \<Rightarrow> tracker \<Rightarrow> bool" where
  "sameCycle [] s = True"
| "sameCycle (c # cs) s = (\<not> restarts c s \<and> sameCycle cs (exec c s))"

definition crossed :: "tracker \<Rightarrow> nat \<Rightarrow> nat \<Rightarrow> nat list" where
  "crossed s i k =
     [j \<leftarrow> [i..<i + k]. stationProgresses s ! j \<le> progress s \<and> lastStationIndex s < int j]"

text \<open>
  \<open>cycleStep s s'\<close>: from \<open>s\<close> to \<open>s'\<close> the calls only grew, the stations fired in between
  have strictly ascending indices, all above the index \<open>s\<close> had reached and none above the
  index \<open>s'\<close> has reached, and the index did not go down.
\<close>

definition cycleStep :: "tracker \<Rightarrow> tracker \<Rightarrow> bool" where
  "cycleStep s s' \<longleftrightarrow>
     (\<exists>new. events s' = events s @ new
         \<and> sorted_wrt (<) (firedIndices new)
         \<and> (\<forall>i \<in> set (firedIndices new). lastStationIndex s < int i \<and> int i \<le> lastStationIndex s')
         \<and> lastStationIndex s \<le> lastStationIndex s')"

text \<open>
  Observations on a waypoint mapping, for the statements about \<open>buildStationPoints\<close>:
  \<open>present parsed k\<close> says that the mapping has a truthy entry under key \<open>k\<close>;
  \<open>stationKey i\<close> is the key \<open>station_i\<close>.
\<close>

definition present :: "js_value \<Rightarrow> string \<Rightarrow> bool" where
  "present parsed k = (case getProp parsed k of Inr v \<Rightarrow> truthy v | Inl e \<Rightarrow> False)"

definition stationKey :: "nat \<Rightarrow> string" where
  "stationKey i = ''station_'' @ digitsOf i"

section \<open>Properties of the spline utilities\<close>

subsection \<open>Rounding\<close>

text \<open>
  \<open>fl\<close> is monotone and idempotent, keeps 0, the powers of two from \<open>2 powr (- 1022)\<close> on
  and the integers below \<open>2 ^ 53\<close>, and sends what is below \<open>2 powr (- 1075)\<close> to 0.
\<close>

lemma rhe_int [simp]: "roundHalfEven (real_of_int n) = n"
  by (simp add: roundHalfEven_def)

lemma rhe_bounds: "\<lfloor>r\<rfloor> \<le> roundHalfEven r" "roundHalfEven r \<le> \<lfloor>r\<rfloor> + 1"
  by (simp_all add: roundHalfEven_def Let_def)

lemma rhe_ge: "real_of_int k \<le> r \<Longrightarrow> k \<le> roundHalfEven r"
proof -
  assume "real_of_int k \<le> r"
  then have "k \<le> \<lfloor>r\<rfloor>" by (simp add: le_floor_iff)
  then show ?thesis using rhe_bounds(1)[of r] by linarith
qed

lemma rhe_le: "r \<le> real_of_int k \<Longrightarrow> roundHalfEven r \<le> k"
proof (cases "r = real_of_int k")
  case True
  then show ?thesis by simp
next
  case False
  assume "r \<le> real_of_int k"
  then have "r < real_of_int k" using False by simp
  then have "\<lfloor>r\<rfloor> < k" by (simp add: floor_less_iff)
  then show ?thesis using rhe_bounds(2)[of r] by linarith
qed

lemma rhe_mono: "r \<le> s \<Longrightarrow> roundHalfEven r \<le> roundHalfEven s"
proof -
  assume rs: "r \<le> s"
  then have f: "\<lfloor>r\<rfloor> \<le> \<lfloor>s\<rfloor>" by (rule floor_mono)
  show ?thesis
  proof (cases "\<lfloor>r\<rfloor> = \<lfloor>s\<rfloor>")
    case True
    then show ?thesis using rs by (auto simp: roundHalfEven_def Let_def)
  next
    case False
    then have "\<lfloor>r\<rfloor> + 1 \<le> \<lfloor>s\<rfloor>" using f by simp
    then show ?thesis using rhe_bounds(2)[of r] rhe_bounds(1)[of s] by linarith
  qed
qed

lemma rhe_minus: "roundHalfEven (- r) = - roundHalfEven r"
proof (cases "r = real_of_int \<lfloor>r\<rfloor>")
  case True
  then obtain n where "r = real_of_int n" by blast
  then have "- r = real_of_int (- n)" by simp
  then show ?thesis using \<open>r = real_of_int n\<close> by (simp only: rhe_int)
next
  case False
  then have fl: "\<lfloor>- r\<rfloor> = - \<lfloor>r\<rfloor> - 1"
    by (metis ceiling_altdef ceiling_def add_diff_cancel_right' diff_minus_eq_add minus_diff_eq uminus_add_conv_diff)
  show ?thesis
    unfolding roundHalfEven_def Let_def fl by (auto simp: algebra_simps)
qed

lemma binade_minus [simp]: "binade (- v) = binade v"
  by (simp add: binade_def)

lemma binade_abs [simp]: "binade \<bar>v\<bar> = binade v"
  by (simp add: binade_def)

lemma binade_ge: "- 1022 \<le> binade v"
  by (simp add: binade_def)

lemma binade_upper: "v \<noteq> 0 \<Longrightarrow> \<bar>v\<bar> < 2 powr real_of_int (binade v + 1)"
proof -
  assume "v \<noteq> 0"
  then have pos: "0 < \<bar>v\<bar>" by simp
  have "log 2 \<bar>v\<bar> < real_of_int (\<lfloor>log 2 \<bar>v\<bar>\<rfloor> + 1)" by linarith
  also have "\<dots> \<le> real_of_int (binade v + 1)" by (simp add: binade_def)
  finally have "log 2 \<bar>v\<bar> < real_of_int (binade v + 1)" .
  then show ?thesis using pos by (simp add: less_powr_iff)
qed

lemma binade_lower: "v \<noteq> 0 \<Longrightarrow> - 1022 < binade v \<Longrightarrow> 2 powr real_of_int (binade v) \<le> \<bar>v\<bar>"
proof -
  assume nz: "v \<noteq> 0" and b: "- 1022 < binade v"
  then have "binade v = \<lfloor>log 2 \<bar>v\<bar>\<rfloor>" by (simp add: binade_def max_def split: if_splits)
  then have "real_of_int (binade v) \<le> log 2 \<bar>v\<bar>" by simp
  then show ?thesis using nz by (simp add: powr_le_iff)
qed

lemma binade_mono: "x \<noteq> 0 \<Longrightarrow> \<bar>x\<bar> \<le> \<bar>y\<bar> \<Longrightarrow> binade x \<le> binade y"
proof -
  assume "x \<noteq> 0" "\<bar>x\<bar> \<le> \<bar>y\<bar>"
  then have "log 2 \<bar>x\<bar> \<le> log 2 \<bar>y\<bar>" by simp
  then have "\<lfloor>log 2 \<bar>x\<bar>\<rfloor> \<le> \<lfloor>log 2 \<bar>y\<bar>\<rfloor>" by (rule floor_mono)
  then show ?thesis by (simp add: binade_def)
qed

lemma binade_eqI:
  assumes "2 powr real_of_int k \<le> \<bar>v\<bar>" "\<bar>v\<bar> < 2 powr real_of_int (k + 1)" "- 1022 \<le> k"
  shows "binade v = k"
proof -
  have "0 < 2 powr real_of_int k" by simp
  then have pos: "0 < \<bar>v\<bar>" using assms(1) by linarith
  have "\<lfloor>log 2 \<bar>v\<bar>\<rfloor> = k"
    using assms(1,2) pos by (simp add: floor_log_eq_powr_iff)
  then show ?thesis using assms(3) by (simp add: binade_def)
qed

lemma binade_small:
  assumes "v \<noteq> 0" "\<bar>v\<bar> < 2 powr real_of_int (- 1021)"
  shows "binade v = - 1022"
proof -
  have pos: "0 < \<bar>v\<bar>" using assms(1) by simp
  have "log 2 \<bar>v\<bar> < real_of_int (- 1021)" using assms(2) pos by (simp add: less_powr_iff)
  then have "\<lfloor>log 2 \<bar>v\<bar>\<rfloor> < - 1021" by (simp add: floor_less_iff)
  then show ?thesis by (simp add: binade_def)
qed

lemma pow2_pos: "0 < 2 powr (a::real)"
  by simp

lemma pow2_split: "2 powr real_of_int (b + 1) = 2 ^ 53 * 2 powr real_of_int (b - 52)"
proof -
  have "real_of_int (b + 1) = 53 + real_of_int (b - 52)" by simp
  then have "2 powr real_of_int (b + 1) = 2 powr 53 * 2 powr real_of_int (b - 52)"
    by (simp only: powr_add)
  then show ?thesis by simp
qed

lemma pow2_split': "2 powr real_of_int b = 2 ^ 52 * 2 powr real_of_int (b - 52)"
proof -
  have "real_of_int b = 52 + real_of_int (b - 52)" by simp
  then have "2 powr real_of_int b = 2 powr 52 * 2 powr real_of_int (b - 52)"
    by (simp only: powr_add)
  then show ?thesis by simp
qed

lemma fl_zero [simp]: "fl 0 = 0"
  by (simp add: fl_def)

lemma fl_minus: "fl (- v) = - fl v"
  by (simp add: fl_def Let_def rhe_minus)

lemma fl_nonneg: "0 \<le> v \<Longrightarrow> 0 \<le> fl v"
proof -
  assume "0 \<le> v"
  then have "0 \<le> v / 2 powr real_of_int (binade v - 52)" by simp
  then have "0 \<le> roundHalfEven (v / 2 powr real_of_int (binade v - 52))"
    using rhe_ge[of 0] by simp
  then show ?thesis by (simp add: fl_def Let_def)
qed

lemma fl_pos_eq:
  "v \<noteq> 0 \<Longrightarrow> fl v = real_of_int (roundHalfEven (v / 2 powr real_of_int (binade v - 52)))
                          * 2 powr real_of_int (binade v - 52)"
  by (simp add: fl_def Let_def)

lemma fl_upper:
  assumes "0 < v"
  shows "fl v \<le> 2 powr real_of_int (binade v + 1)"
proof -
  define q where "q = 2 powr real_of_int (binade v - 52)"
  define n where "n = roundHalfEven (v / q)"
  have q: "0 < q" by (simp add: q_def)
  have "v < 2 powr real_of_int (binade v + 1)" using binade_upper[of v] assms by simp
  then have "v < 2 ^ 53 * q" unfolding q_def by (simp only: pow2_split)
  then have "v / q \<le> 2 ^ 53" using q by (simp add: pos_divide_le_eq)
  then have "v / q \<le> real_of_int (2 ^ 53)" by simp
  then have "n \<le> 2 ^ 53" unfolding n_def by (rule rhe_le)
  then have "real_of_int n \<le> real_of_int (2 ^ 53)" by (simp only: of_int_le_iff)
  then have "real_of_int n \<le> 2 ^ 53" by simp
  then have "real_of_int n * q \<le> 2 ^ 53 * q" using q by (simp only: mult_le_cancel_right_pos)
  moreover have "fl v = real_of_int n * q"
    unfolding n_def q_def using assms by (intro fl_pos_eq) simp
  moreover have "2 powr real_of_int (binade v + 1) = 2 ^ 53 * q"
    unfolding q_def by (rule pow2_split)
  ultimately show ?thesis by simp
qed

lemma fl_lower:
  assumes "0 < v" "2 powr real_of_int (binade v) \<le> v"
  shows "2 powr real_of_int (binade v) \<le> fl v"
proof -
  define q where "q = 2 powr real_of_int (binade v - 52)"
  define n where "n = roundHalfEven (v / q)"
  have q: "0 < q" by (simp add: q_def)
  have p: "2 powr real_of_int (binade v) = 2 ^ 52 * q" unfolding q_def by (rule pow2_split')
  have "2 ^ 52 * q \<le> v" using assms(2) unfolding p .
  then have "2 ^ 52 \<le> v / q" using q by (simp add: pos_le_divide_eq)
  then have "real_of_int (2 ^ 52) \<le> v / q" by simp
  then have "2 ^ 52 \<le> n" unfolding n_def by (rule rhe_ge)
  then have "real_of_int (2 ^ 52) \<le> real_of_int n" by (simp only: of_int_le_iff)
  then have "2 ^ 52 \<le> real_of_int n" by simp
  then have "2 ^ 52 * q \<le> real_of_int n * q" using q by (simp only: mult_le_cancel_right_pos)
  moreover have "fl v = real_of_int n * q"
    unfolding n_def q_def using assms by (intro fl_pos_eq) simp
  ultimately show ?thesis unfolding p by simp
qed

lemma fl_mono_pos:
  assumes "0 < x" "x \<le> y"
  shows "fl x \<le> fl y"
proof -
  have y: "0 < y" using assms by simp
  have b: "binade x \<le> binade y" using assms by (intro binade_mono) simp_all
  show ?thesis
  proof (cases "binade x = binade y")
    case True
    let ?q = "2 powr real_of_int (binade y - 52)"
    have "x / ?q \<le> y / ?q" using assms(2) by (simp add: divide_right_mono)
    then have "roundHalfEven (x / ?q) \<le> roundHalfEven (y / ?q)" by (rule rhe_mono)
    then have "real_of_int (roundHalfEven (x / ?q)) * ?q \<le> real_of_int (roundHalfEven (y / ?q)) * ?q"
      by (simp add: mult_right_mono)
    then show ?thesis using assms(1) y True by (simp add: fl_def Let_def)
  next
    case False
    then have lt: "binade x + 1 \<le> binade y" using b by simp
    then have "- 1022 < binade y" using binade_ge[of x] by linarith
    then have "2 powr real_of_int (binade y) \<le> y" using binade_lower[of y] y by simp
    then have ly: "2 powr real_of_int (binade y) \<le> fl y" using y by (intro fl_lower)
    have "fl x \<le> 2 powr real_of_int (binade x + 1)" using assms(1) by (rule fl_upper)
    also have "\<dots> \<le> 2 powr real_of_int (binade y)" using lt by simp
    finally show ?thesis using ly by linarith
  qed
qed

lemma fl_mono: "x \<le> y \<Longrightarrow> fl x \<le> fl y"
proof -
  assume xy: "x \<le> y"
  consider "0 < x" | "x \<le> 0" "0 \<le> y" | "y < 0" by linarith
  then show ?thesis
  proof cases
    case 1
    then show ?thesis using xy by (rule fl_mono_pos)
  next
    case 2
    have "0 \<le> fl (- x)" using 2(1) by (intro fl_nonneg) simp
    then have "fl x \<le> 0" by (simp add: fl_minus)
    moreover have "0 \<le> fl y" using 2(2) by (rule fl_nonneg)
    ultimately show ?thesis by linarith
  next
    case 3
    then have "0 < - y" "- y \<le> - x" using xy by simp_all
    then have "fl (- y) \<le> fl (- x)" by (rule fl_mono_pos)
    then show ?thesis by (simp add: fl_minus)
  qed
qed

lemma fl_grid:
  assumes "v \<noteq> 0" "v = real_of_int n * 2 powr real_of_int (binade v - 52)"
  shows "fl v = v"
proof -
  define q where "q = 2 powr real_of_int (binade v - 52)"
  have q: "q \<noteq> 0" by (simp add: q_def)
  have "v / q = real_of_int n" using assms(2) q unfolding q_def[symmetric] by simp
  then have "roundHalfEven (v / q) = n" by simp
  then have "fl v = real_of_int n * q" using assms(1) unfolding q_def by (simp add: fl_pos_eq)
  then show ?thesis using assms(2) unfolding q_def by simp
qed

lemma fl_pow2:
  assumes "- 1022 \<le> k"
  shows "fl (2 powr real_of_int k) = 2 powr real_of_int k"
proof -
  let ?v = "2 powr real_of_int k"
  have nz: "?v \<noteq> 0" by simp
  have "?v \<le> \<bar>?v\<bar>" by simp
  moreover have "\<bar>?v\<bar> < 2 powr real_of_int (k + 1)" by simp
  ultimately have b: "binade ?v = k" using assms by (rule binade_eqI)
  have "?v = real_of_int (2 ^ 52) * 2 powr real_of_int (binade ?v - 52)"
    unfolding b using pow2_split'[of k] by simp
  with nz show ?thesis by (rule fl_grid)
qed

lemma fl_one [simp]: "fl 1 = 1"
  using fl_pow2[of 0] by simp

lemma fl_idem_pos:
  assumes "0 < x"
  shows "fl (fl x) = fl x"
proof -
  define b where "b = binade x"
  define q where "q = 2 powr real_of_int (b - 52)"
  define n where "n = roundHalfEven (x / q)"
  have q: "0 < q" by (simp add: q_def)
  have v: "fl x = real_of_int n * q"
    unfolding n_def q_def b_def using assms by (intro fl_pos_eq) simp
  have n0: "0 \<le> n" unfolding n_def using assms q by (intro rhe_ge) simp
  have up: "fl x \<le> 2 powr real_of_int (b + 1)" unfolding b_def using assms by (rule fl_upper)
  have bge: "- 1022 \<le> b" unfolding b_def by (rule binade_ge)
  show ?thesis
  proof (cases "n = 0")
    case True
    then show ?thesis using v by simp
  next
    case False
    then have npos: "0 < n" using n0 by simp
    then have vpos: "0 < fl x" using v q by simp
    show ?thesis
    proof (cases "fl x = 2 powr real_of_int (b + 1)")
      case True
      have "- 1022 \<le> b + 1" using bge by simp
      then show ?thesis unfolding True by (rule fl_pow2)
    next
      case False
      then have lt: "\<bar>fl x\<bar> < 2 powr real_of_int (b + 1)" using up vpos by simp
      have bv: "binade (fl x) = b"
      proof (cases "b = - 1022")
        case True
        have "fl x \<noteq> 0" using vpos by simp
        moreover have "\<bar>fl x\<bar> < 2 powr real_of_int (- 1021)" using lt True by simp
        ultimately show ?thesis using True by (simp add: binade_small)
      next
        case False
        then have "- 1022 < binade x" using bge by (simp add: b_def)
        then have "2 powr real_of_int (binade x) \<le> x" using binade_lower[of x] assms by simp
        then have "2 powr real_of_int (binade x) \<le> fl x" using assms by (intro fl_lower)
        then have "2 powr real_of_int b \<le> \<bar>fl x\<bar>" using vpos by (simp add: b_def)
        then show ?thesis using lt bge by (rule binade_eqI)
      qed
      have "fl x = real_of_int n * 2 powr real_of_int (binade (fl x) - 52)"
        unfolding bv using v by (simp add: q_def)
      moreover have "fl x \<noteq> 0" using vpos by simp
      ultimately show ?thesis by (intro fl_grid)
    qed
  qed
qed

lemma fl_idem [simp]: "fl (fl x) = fl x"
proof -
  consider "0 < x" | "x = 0" | "x < 0" by linarith
  then show ?thesis
  proof cases
    case 1
    then show ?thesis by (rule fl_idem_pos)
  next
    case 2
    then show ?thesis by simp
  next
    case 3
    then have "fl (fl (- x)) = fl (- x)" by (intro fl_idem_pos) simp
    then show ?thesis by (simp add: fl_minus)
  qed
qed



lemma fl_eval:
  assumes "2 powr real_of_int k \<le> \<bar>v\<bar>" "\<bar>v\<bar> < 2 powr real_of_int (k + 1)" "- 1022 \<le> k"
  shows "fl v = real_of_int (roundHalfEven (v / 2 powr real_of_int (k - 52)))
                  * 2 powr real_of_int (k - 52)"
proof -
  have b: "binade v = k" using assms by (rule binade_eqI)
  have "0 < 2 powr real_of_int k" by simp
  then have "v \<noteq> 0" using assms(1) by auto
  then show ?thesis using b by (simp add: fl_pos_eq)
qed

lemma fl_ge_pow2:
  assumes "2 powr real_of_int k \<le> v" "- 1022 \<le> k"
  shows "2 powr real_of_int k \<le> fl v"
proof -
  have "fl (2 powr real_of_int k) \<le> fl v" using assms(1) by (rule fl_mono)
  then show ?thesis using assms(2) by (simp add: fl_pow2)
qed

lemma fl_val:
  assumes "2 powr real_of_int k \<le> \<bar>v\<bar>" "\<bar>v\<bar> < 2 powr real_of_int (k + 1)" "- 1022 \<le> k"
    and "roundHalfEven (v / 2 powr real_of_int (k - 52)) = n"
  shows "fl v = real_of_int n * 2 powr real_of_int (k - 52)"
  using fl_eval[OF assms(1-3)] assms(4) by simp


lemma fl_of_int:
  assumes "\<bar>n\<bar> < 2 ^ 53"
  shows "fl (real_of_int n) = real_of_int n"
proof (cases "n = 0")
  case True
  then show ?thesis by simp
next
  case False
  let ?v = "real_of_int n"
  define b where "b = binade ?v"
  have nz: "?v \<noteq> 0" using False by simp
  have "1 \<le> \<bar>n\<bar>" using False by linarith
  then have one: "1 \<le> \<bar>?v\<bar>" by (metis of_int_1_le_iff of_int_abs)
  then have "0 \<le> log 2 \<bar>?v\<bar>" by simp
  then have f0: "0 \<le> \<lfloor>log 2 \<bar>?v\<bar>\<rfloor>" by simp
  then have bf: "b = \<lfloor>log 2 \<bar>?v\<bar>\<rfloor>" by (simp add: b_def binade_def)
  have "real_of_int \<bar>n\<bar> < real_of_int (2 ^ 53)" using assms by (simp only: of_int_less_iff)
  then have lt: "\<bar>?v\<bar> < 2 powr 53" by simp
  have pos: "0 < \<bar>?v\<bar>" using one by linarith
  have "(1::real) < 2" by simp
  from less_powr_iff[OF this pos, of 53] lt have "log 2 \<bar>?v\<bar> < 53" by blast
  then have "\<lfloor>log 2 \<bar>?v\<bar>\<rfloor> < 53" by (simp add: floor_less_iff)
  then have b52: "b \<le> 52" and b0: "0 \<le> b" using bf f0 by simp_all
  define m where "m = nat (52 - b)"
  have "real_of_int (b - 52) = - real m" using b52 by (simp add: m_def)
  then have "2 powr real_of_int (b - 52) = 2 powr (- real m)" by simp
  also have "\<dots> = 1 / 2 ^ m" by (simp add: powr_minus powr_realpow divide_simps)
  finally have q: "2 powr real_of_int (b - 52) = 1 / 2 ^ m" .
  have "?v = real_of_int (n * 2 ^ m) * 2 powr real_of_int (binade ?v - 52)"
    unfolding b_def[symmetric] q by simp
  with nz show ?thesis by (rule fl_grid)
qed

lemma fl_numeral [simp]: "(numeral w :: int) < 2 ^ 53 \<Longrightarrow> fl (numeral w) = numeral w"
  using fl_of_int[of "numeral w"] by simp

lemma fl_of_nat: "n < 2 ^ 53 \<Longrightarrow> fl (real n) = real n"
  using fl_of_int[of "int n"] by simp

lemma fl_30: "fl 30 = 30"
  by simp

subsection \<open>The path\<close>

lemma splineSegment_length: "length (splineSegment pts seg i) = seg"
  by (simp add: splineSegment_def Let_def)

lemma concat_segments_length:
  "length (concat (map (splineSegment pts seg) [0..<m])) = m * seg"
  by (induction m) (simp_all add: splineSegment_length)

lemma path_two:
  assumes "length pts = 2" "0 < seg"
  shows "generateSplinePath pts seg = Some (map (linearPoint pts seg) [0..<seg + 1])"
  using assms by (simp add: generateSplinePath_def)

lemma path_many:
  assumes "2 < length pts"
  shows "generateSplinePath pts seg =
    Some (concat (map (splineSegment pts seg) [0..<length pts - 1]) @ [xy (pts ! (length pts - 1))])"
  using assms by (simp add: generateSplinePath_def Let_def)

lemma path_many_last:
  assumes "2 < length pts"
  shows "\<exists>path. generateSplinePath pts seg = Some path \<and> last path = xy (last pts)"
proof -
  have "pts \<noteq> []" using assms by auto
  then show ?thesis using path_many[OF assms] by (simp add: last_conv_nth)
qed


text \<open>The path of two or more stations has (n - 1) * seg + 1 samples.\<close>

lemma path_length:
  assumes "2 \<le> length pts" "0 < seg"
  shows "\<exists>path. generateSplinePath pts seg = Some path
           \<and> length path = (length pts - 1) * seg + 1"
proof (cases "length pts = 2")
  case True
  then show ?thesis using path_two[OF True assms(2)] by simp
next
  case False
  then have big: "2 < length pts" using assms by simp
  then show ?thesis using path_many[OF big] by (simp add: concat_segments_length)
qed


text \<open>
  The doubles nearest to 2.2 and 11.1, the rounded difference of the two, and the rounded sum
  of the first and that difference: the sum is a tie between two doubles and goes to the
  even one, which lies below the double nearest to 11.1.
\<close>

lemma fl_2_2: "fl (11 / 5) = 2476979795053773 / 1125899906842624"
  using fl_val[of 1 "11 / 5" 4953959590107546]
  by (simp add: roundHalfEven_def Let_def powr_neg_numeral)

lemma fl_11_1: "fl (111 / 10) = 6248744482976563 / 562949953421312"
  using fl_val[of 3 "111 / 10" 6248744482976563]
  by (simp add: roundHalfEven_def Let_def powr_neg_numeral)

lemma fl_diff: "fl (6248744482976563 / 562949953421312 - 2476979795053773 / 1125899906842624)
   = 1252563646362419 / 140737488355328"
  using fl_val[of 3 "6248744482976563 / 562949953421312 - 2476979795053773 / 1125899906842624" 5010254585449676]
  by (simp add: roundHalfEven_def Let_def powr_neg_numeral)

lemma fl_sum: "fl (2476979795053773 / 1125899906842624 + 1252563646362419 / 140737488355328)
   = 3124372241488281 / 281474976710656"
  using fl_val[of 3 "2476979795053773 / 1125899906842624 + 1252563646362419 / 140737488355328" 6248744482976562]
  by (simp add: roundHalfEven_def Let_def powr_neg_numeral)

lemma linearPoint_drift:
  "linearPoint [\<lparr>pt_x = fl (11 / 5), pt_y = 0, key = ''station_1'', name = ''SkiErg'', num = 1\<rparr>,
                \<lparr>pt_x = fl (111 / 10), pt_y = 0, key = ''station_2'', name = ''Sled Push'', num = 2\<rparr>] 30 30
     = \<lparr>pt_x = 3124372241488281 / 281474976710656, pt_y = 0\<rparr>"
proof -
  let ?pts = "[\<lparr>pt_x = fl (11 / 5), pt_y = 0, key = ''station_1'', name = ''SkiErg'', num = 1\<rparr>,
        \<lparr>pt_x = fl (111 / 10), pt_y = 0, key = ''station_2'', name = ''Sled Push'', num = 2\<rparr>]"
  have t: "fl (real (30::nat) / real (30::nat)) = 1" by simp
  have c: "pt_x (?pts ! 0) = fl (11 / 5)" "pt_x (?pts ! 1) = fl (111 / 10)"
    "pt_y (?pts ! 0) = 0" "pt_y (?pts ! 1) = 0" by simp_all
  have d: "fl (fl (111 / 10) - fl (11 / 5)) = 1252563646362419 / 140737488355328"
    unfolding fl_2_2 fl_11_1 by (rule fl_diff)
  have dd: "fl (fl (fl (111 / 10) - fl (11 / 5)) * 1) = 1252563646362419 / 140737488355328"
    unfolding mult_1_right fl_idem by (rule d)
  have x: "fl (fl (11 / 5) + fl (fl (fl (111 / 10) - fl (11 / 5)) * 1))
            = 3124372241488281 / 281474976710656"
    unfolding dd unfolding fl_2_2 by (rule fl_sum)
  have y: "fl (0 + fl (fl (0 - 0) * 1)) = 0" by simp
  show ?thesis
    unfolding linearPoint_def Let_def t c x y by (rule refl)
qed

lemma position_at_end:
  assumes "length path = 31" "fl (pt_x (path ! 30)) = pt_x (path ! 30)"
     "fl (pt_y (path ! 30)) = pt_y (path ! 30)"
  shows "getPositionAtProgress path 1 = path ! 30"
  using assms by (simp add: getPositionAtProgress_def Let_def fl_30)


text \<open>
  C3. The claim: for every non-empty station sequence and every segment count of at least
  1 the path starts exactly at the coordinates of the first station and ends exactly at
  the coordinates of the last one, so that the position at progress 1 is the last
  station's. For three or more stations the source appends the last station itself to the
  path (lemma \<open>path_many_last\<close>). For two stations it does not: the last sample is
  \<open>p0 + (p1 - p0) * 1\<close>, computed in doubles. With two stations at \<open>x = 2.2\<close> and
  \<open>x = 11.1\<close> (the doubles nearest to them), \<open>y = 0\<close>, and 30 segments, the path ends at
  \<open>x = 3124372241488281 / 2 ^ 48 = 11.099999999999998...\<close>, the double just below the
  second station's \<open>x\<close>, and the position at progress 1 is that point.
\<close>

theorem two_station_path_end:
  "\<exists>path. generateSplinePath
       [\<lparr>pt_x = fl (11 / 5), pt_y = 0, key = ''station_1'', name = ''SkiErg'', num = 1\<rparr>,
        \<lparr>pt_x = fl (111 / 10), pt_y = 0, key = ''station_2'', name = ''Sled Push'', num = 2\<rparr>] 30
       = Some path
     \<and> last path = \<lparr>pt_x = 3124372241488281 / 281474976710656, pt_y = 0\<rparr>
     \<and> getPositionAtProgress path 1 = \<lparr>pt_x = 3124372241488281 / 281474976710656, pt_y = 0\<rparr>
     \<and> 3124372241488281 / 281474976710656 < fl (111 / 10)"
proof -
  let ?pts = "[\<lparr>pt_x = fl (11 / 5), pt_y = 0, key = ''station_1'', name = ''SkiErg'', num = 1\<rparr>,
        \<lparr>pt_x = fl (111 / 10), pt_y = 0, key = ''station_2'', name = ''Sled Push'', num = 2\<rparr>]"
  let ?r = "\<lparr>pt_x = 3124372241488281 / 281474976710656, pt_y = 0\<rparr>"
  define path where "path = map (linearPoint ?pts 30) [0..<30 + 1]"
  have p: "generateSplinePath ?pts 30 = Some path"
    unfolding path_def by (rule path_two) simp_all
  have len: "length path = 31" by (simp add: path_def)
  have "path ! 30 = linearPoint ?pts 30 30" by (simp add: path_def)
  then have n: "path ! 30 = ?r" by (simp only: linearPoint_drift)
  have "path \<noteq> []" using len by auto
  then have "last path = path ! (length path - 1)" by (rule last_conv_nth)
  then have l: "last path = ?r" unfolding len using n by simp
  have "fl (3124372241488281 / 281474976710656) = 3124372241488281 / 281474976710656"
    using fl_idem[of "2476979795053773 / 1125899906842624 + 1252563646362419 / 140737488355328"]
    unfolding fl_sum .
  then have x: "fl (pt_x (path ! 30)) = pt_x (path ! 30)" unfolding n by simp
  have y: "fl (pt_y (path ! 30)) = pt_y (path ! 30)" unfolding n by simp
  have g: "getPositionAtProgress path 1 = ?r"
    using position_at_end[OF len x y] n by simp
  have "3124372241488281 / 281474976710656 < fl (111 / 10)" unfolding fl_11_1 by simp
  with p l g show ?thesis by blast
qed

subsection \<open>Arc lengths and the station progress map\<close>

lemma arcLoop_Cons:
  "arcLoop prev (p # ps) t acc
     = arcLoop p ps (fl (t + arcStep prev p)) (acc @ [fl (t + arcStep prev p)])"
  by (simp add: Let_def arcStep_def)

lemma arcStep_nonneg: "0 \<le> arcStep prev p"
proof -
  let ?dx = "fl (pt_x p - pt_x prev)" and ?dy = "fl (pt_y p - pt_y prev)"
  have "0 \<le> fl (?dx * ?dx)" "0 \<le> fl (?dy * ?dy)" by (simp_all add: fl_nonneg)
  then have "0 \<le> fl (fl (?dx * ?dx) + fl (?dy * ?dy))" by (simp add: fl_nonneg)
  then show ?thesis unfolding arcStep_def by (simp add: fl_nonneg)
qed

lemma arc_add_ge: "fl t = t \<Longrightarrow> t \<le> fl (t + arcStep prev p)"
proof -
  assume t: "fl t = t"
  have "t \<le> t + arcStep prev p" using arcStep_nonneg[of prev p] by simp
  then have "fl t \<le> fl (t + arcStep prev p)" by (rule fl_mono)
  then show ?thesis using t by simp
qed

lemma arcLoop_length: "length (fst (arcLoop prev ps t acc)) = length acc + length ps"
  by (induction ps arbitrary: prev t acc) (simp_all add: Let_def)

lemma arcLoop_total_ge: "fl t = t \<Longrightarrow> t \<le> snd (arcLoop prev ps t acc)"
proof (induction ps arbitrary: prev t acc)
  case Nil
  then show ?case by simp
next
  case (Cons p ps)
  let ?t = "fl (t + arcStep prev p)"
  have "t \<le> ?t" using Cons.prems by (rule arc_add_ge)
  also have "?t \<le> snd (arcLoop p ps ?t (acc @ [?t]))" by (rule Cons.IH) simp
  finally show ?case by (simp only: arcLoop_Cons)
qed

lemma arcLoop_prefix: "\<exists>more. fst (arcLoop prev ps t acc) = acc @ more"
proof (induction ps arbitrary: prev t acc)
  case Nil
  then show ?case by simp
next
  case (Cons p ps)
  let ?t = "fl (t + arcStep prev p)"
  from Cons.IH[of p ?t "acc @ [?t]"] obtain more
    where "fst (arcLoop p ps ?t (acc @ [?t])) = (acc @ [?t]) @ more" by blast
  then have "fst (arcLoop prev (p # ps) t acc) = acc @ (?t # more)"
    by (simp only: arcLoop_Cons) simp
  then show ?case by blast
qed

lemma arcLoop_sorted:
  "sorted acc \<Longrightarrow> \<forall>a \<in> set acc. a \<le> t \<Longrightarrow> fl t = t \<Longrightarrow>
     sorted (fst (arcLoop prev ps t acc))
     \<and> (\<forall>a \<in> set (fst (arcLoop prev ps t acc)). a \<le> snd (arcLoop prev ps t acc))"
proof (induction ps arbitrary: prev t acc)
  case Nil
  then show ?case by simp
next
  case (Cons p ps)
  let ?t = "fl (t + arcStep prev p)"
  have ge: "t \<le> ?t" using Cons.prems(3) by (rule arc_add_ge)
  have below: "\<forall>a \<in> set acc. a \<le> ?t"
  proof
    fix a assume "a \<in> set acc"
    then have "a \<le> t" using Cons.prems(2) by blast
    then show "a \<le> ?t" using ge by (rule order_trans)
  qed
  have s: "sorted (acc @ [?t])"
    using Cons.prems(1) below by (simp add: sorted_append)
  have b: "\<forall>a \<in> set (acc @ [?t]). a \<le> ?t"
    using below by simp
  have i: "fl ?t = ?t" by simp
  from Cons.IH[OF s b i, of p] show ?case unfolding arcLoop_Cons .
qed

lemma arcLoop_last:
  "acc \<noteq> [] \<Longrightarrow> last acc = t \<Longrightarrow> last (fst (arcLoop prev ps t acc)) = snd (arcLoop prev ps t acc)"
  by (induction ps arbitrary: prev t acc) (simp_all add: Let_def)

text \<open>
  The running totals of a path of two or more samples: one per sample, non-decreasing,
  from 0 to the total, which is not negative.
\<close>

lemma arc_table:
  assumes "2 \<le> length path"
  shows "\<exists>ls. length ls = length path \<and> sorted ls \<and> ls ! 0 = 0
           \<and> ls ! (length path - 1) = arcTotal path \<and> 0 \<le> arcTotal path
           \<and> computeArcLengths path
                = map (\<lambda>l. if arcTotal path = 0 then None else Some (fl (l / arcTotal path))) ls"
proof -
  let ?r = "arcLoop (hd path) (tl path) 0 [0]"
  have tot: "arcTotal path = snd ?r" by (simp add: arcTotal_def)
  have ge: "0 \<le> snd ?r" by (rule arcLoop_total_ge) simp
  have len: "length (fst ?r) = length path"
    using assms by (simp add: arcLoop_length)
  have srt: "sorted (fst ?r)" using arcLoop_sorted[of "[0]" 0 "hd path" "tl path"] by simp
  obtain more where m: "fst ?r = [0] @ more" using arcLoop_prefix by blast
  then have z: "fst ?r ! 0 = 0" by simp
  have "last (fst ?r) = snd ?r" by (rule arcLoop_last) simp_all
  moreover have "fst ?r \<noteq> []" using m by simp
  ultimately have l: "fst ?r ! (length path - 1) = snd ?r"
    using len by (simp add: last_conv_nth)
  have "computeArcLengths path
          = map (\<lambda>l. if snd ?r = 0 then None else Some (fl (l / snd ?r))) (fst ?r)"
    using assms by (simp add: computeArcLengths_def split_beta)
  then show ?thesis using len srt z l ge unfolding tot by blast
qed

lemma arrayGet_in_range: "k < length xs \<Longrightarrow> arrayGet xs (int k) = Some (xs ! k)"
  by (simp add: arrayGet_def)

lemma stationToProgress_nth:
  assumes "2 \<le> n" "idx * seg < length arc"
  shows "stationToProgress idx n arc seg = (case arc ! (idx * seg) of None \<Rightarrow> 0 | Some v \<Rightarrow> v)"
proof -
  have "int (idx * seg) < int (length arc)" using assms(2) by (simp only: of_nat_less_iff)
  then have lt: "int idx * int seg < int (length arc)" by (simp only: of_nat_mult)
  have m: "min (int idx * int seg) (int (length arc) - 1) = int idx * int seg"
    using lt by simp
  have g: "arrayGet arc (int idx * int seg) = Some (arc ! (idx * seg))"
    using assms(2) arrayGet_in_range[of "idx * seg" arc] by simp
  have "\<not> n \<le> 1" using assms(1) by simp
  then show ?thesis
    unfolding stationToProgress_def Let_def m g by (simp split: option.splits)
qed

lemma progress_map_facts:
  assumes "2 \<le> length pts" "1 \<le> seg"
  shows "\<exists>path. generateSplinePath pts seg = Some path \<and>
           (let arc = computeArcLengths path;
                sp = map (\<lambda>i. stationToProgress i (length pts) arc seg) [0..<length pts]
            in sorted sp \<and> sp ! 0 = 0
               \<and> (arcTotal path \<noteq> 0 \<longrightarrow> sp ! (length pts - 1) = 1)
               \<and> (arcTotal path = 0 \<longrightarrow> (\<forall>i < length pts. sp ! i = 0)))"
proof -
  have seg: "0 < seg" using assms(2) by simp
  from path_length[OF assms(1) seg] obtain path where
    p: "generateSplinePath pts seg = Some path"
       "length path = (length pts - 1) * seg + 1" by blast
  let ?n = "length pts"
  let ?tot = "arcTotal path"
  have "1 \<le> length pts - 1" using assms(1) by arith
  moreover have "1 \<le> seg" using seg by simp
  ultimately have "1 * 1 \<le> (length pts - 1) * seg" by (rule mult_le_mono)
  then have len2: "2 \<le> length path" using p(2) by linarith
  have npos: "0 < ?n" using assms(1) by linarith
  have nl: "?n - 1 < ?n" using assms(1) by linarith
  from arc_table[OF len2] obtain ls where
    a: "length ls = length path" "sorted ls" "ls ! 0 = 0"
       "ls ! (length path - 1) = ?tot" "0 \<le> ?tot"
       "computeArcLengths path
          = map (\<lambda>l. if ?tot = 0 then None else Some (fl (l / ?tot))) ls" by blast
  have inr: "\<And>i. i < ?n \<Longrightarrow> i * seg < length ls"
  proof -
    fix i assume "i < ?n"
    then have "i \<le> ?n - 1" by simp
    then have "i * seg \<le> (?n - 1) * seg" by (rule mult_le_mono1)
    then show "i * seg < length ls" using a(1) p(2) by linarith
  qed
  have val: "\<And>i. i < ?n \<Longrightarrow>
      stationToProgress i ?n (computeArcLengths path) seg
        = (if ?tot = 0 then 0 else fl (ls ! (i * seg) / ?tot))"
  proof -
    fix i assume i: "i < ?n"
    have "i * seg < length (computeArcLengths path)" using inr[OF i] a(6) by simp
    from stationToProgress_nth[OF assms(1) this]
    show "stationToProgress i ?n (computeArcLengths path) seg
        = (if ?tot = 0 then 0 else fl (ls ! (i * seg) / ?tot))"
      using inr[OF i] a(6) by simp
  qed
  let ?sp = "map (\<lambda>i. stationToProgress i ?n (computeArcLengths path) seg) [0..<?n]"
  have "sorted ?sp"
  proof (subst sorted_iff_nth_mono, intro allI impI)
    fix i j assume ij: "i \<le> j" "j < length ?sp"
    then have j: "j < ?n" and i: "i < ?n" by simp_all
    have "i * seg \<le> j * seg" using ij(1) by (rule mult_le_mono1)
    then have "ls ! (i * seg) \<le> ls ! (j * seg)"
      using a(2) inr[OF j] by (simp add: sorted_iff_nth_mono)
    then have "ls ! (i * seg) / ?tot \<le> ls ! (j * seg) / ?tot"
      using a(5) by (simp add: divide_right_mono)
    then have "fl (ls ! (i * seg) / ?tot) \<le> fl (ls ! (j * seg) / ?tot)" by (rule fl_mono)
    then show "?sp ! i \<le> ?sp ! j" using i j val by simp
  qed
  moreover have "?sp ! 0 = 0" using npos val[OF npos] a(3) by simp
  moreover have "?tot \<noteq> 0 \<longrightarrow> ?sp ! (?n - 1) = 1"
    using nl val[OF nl] a(4) p(2) by simp
  moreover have "?tot = 0 \<longrightarrow> (\<forall>i < ?n. ?sp ! i = 0)"
    using val by simp
  ultimately show ?thesis using p(1) unfolding Let_def by blast
qed

lemma arcStep_ge:
  assumes "2 powr real_of_int k \<le> pt_x p - pt_x prev" "- 511 \<le> k"
  shows "2 powr real_of_int k \<le> arcStep prev p"
proof -
  define a where "a = 2 powr real_of_int k"
  define dx where "dx = fl (pt_x p - pt_x prev)"
  define dy where "dy = fl (pt_y p - pt_y prev)"
  have a0: "0 \<le> a" by (simp add: a_def)
  have k1: "- 1022 \<le> k" and k2: "- 1022 \<le> k + k" using assms(2) by simp_all
  have "real_of_int (k + k) = real_of_int k + real_of_int k" by simp
  then have aa: "a * a = 2 powr real_of_int (k + k)" by (simp only: a_def powr_add)
  have "a \<le> dx" unfolding a_def dx_def using assms(1) k1 by (rule fl_ge_pow2)
  then have "a * a \<le> dx * dx" using a0 by (intro mult_mono) simp_all
  then have "2 powr real_of_int (k + k) \<le> dx * dx" unfolding aa .
  then have "2 powr real_of_int (k + k) \<le> fl (dx * dx)" using k2 by (rule fl_ge_pow2)
  moreover have "0 \<le> fl (dy * dy)" by (simp add: fl_nonneg)
  ultimately have "2 powr real_of_int (k + k) \<le> fl (dx * dx) + fl (dy * dy)" by linarith
  then have "2 powr real_of_int (k + k) \<le> fl (fl (dx * dx) + fl (dy * dy))"
    using k2 by (rule fl_ge_pow2)
  then have "sqrt (a * a) \<le> sqrt (fl (fl (dx * dx) + fl (dy * dy)))"
    unfolding aa by (simp only: real_sqrt_le_iff)
  then have "2 powr real_of_int k \<le> sqrt (fl (fl (dx * dx) + fl (dy * dy)))"
    using a0 by (simp add: a_def)
  then have "2 powr real_of_int k \<le> fl (sqrt (fl (fl (dx * dx) + fl (dy * dy))))"
    using k1 by (rule fl_ge_pow2)
  then show ?thesis unfolding arcStep_def dx_def dy_def .
qed

lemma arcStep_idem: "fl (arcStep prev p) = arcStep prev p"
  by (simp add: arcStep_def)

lemma arcTotal_ge_first: "arcStep p0 p1 \<le> arcTotal (p0 # p1 # rest)"
proof -
  have "fl (0 + arcStep p0 p1) \<le> snd (arcLoop p1 rest (fl (0 + arcStep p0 p1)) ([0] @ [fl (0 + arcStep p0 p1)]))"
    by (rule arcLoop_total_ge) simp
  then show ?thesis
    unfolding arcTotal_def list.sel arcLoop_Cons by (simp add: arcStep_idem)
qed













section \<open>Properties of the tracker\<close>

lemma splinePath_upd:
  "stationPoints s' = stationPoints s \<Longrightarrow> splinePath s' = splinePath s"
  by (simp add: splinePath_def)

lemma stationProgresses_upd:
  "stationPoints s' = stationPoints s \<Longrightarrow> stationProgresses s' = stationProgresses s"
  by (simp add: stationProgresses_def arcLengths_def splinePath_def)

text \<open>Overwriting the fields an operation may write gives back the state it started from.\<close>

lemma reachStation_over:
  "(reachStation i s)\<lparr>activeSplit := a, lastStationIndex := l, events := ev\<rparr>
     = s\<lparr>activeSplit := a, lastStationIndex := l, events := ev\<rparr>"
  by (simp add: reachStation_def Let_def split: option.split)

lemma checkStationsLoop_over:
  "(checkStationsLoop i k s)\<lparr>activeSplit := a, lastStationIndex := l, events := ev\<rparr>
     = s\<lparr>activeSplit := a, lastStationIndex := l, events := ev\<rparr>"
  by (induction k arbitrary: i s) (simp_all add: reachStation_over)

lemma checkStations_frame:
  "checkStations s = s\<lparr>activeSplit := activeSplit (checkStations s),
                        lastStationIndex := lastStationIndex (checkStations s),
                        events := events (checkStations s)\<rparr>"
  using checkStationsLoop_over[where i = 0 and k = "length (stationProgresses s)" and s = s
          and a = "activeSplit (checkStations s)" and l = "lastStationIndex (checkStations s)"
          and ev = "events (checkStations s)"]
  by (simp add: checkStations_def)

lemma updateParticles_eq:
  "updateParticles dt e s =
     s\<lparr>particles := updatePool 30 dt 800 (athleteParticle e s) (particles s),
       ghostParticles :=
         (if showGhost s \<and> ghostTotalMs s > 0
          then updatePool 20 dt 600
                 (ghostParticle e (s\<lparr>particles := updatePool 30 dt 800 (athleteParticle e s) (particles s)\<rparr>))
                 (ghostParticles s)
          else ghostParticles s)\<rparr>"
  by (simp add: updateParticles_def Let_def)

lemma fadePopup_over: "(fadePopup dt s)\<lparr>activeSplit := a\<rparr> = s\<lparr>activeSplit := a\<rparr>"
  by (simp add: fadePopup_def Let_def split: option.split)

lemma fadePopup_frame: "fadePopup dt s = s\<lparr>activeSplit := activeSplit (fadePopup dt s)\<rparr>"
  using fadePopup_over[where dt = dt and s = s and a = "activeSplit (fadePopup dt s)"] by simp

lemma tickBody_eq:
  "tickBody e s =
     fadePopup (tickDelta e s) (updateParticles (tickDelta e s) e (checkStations (timeStep e s)))"
  by (simp add: tickBody_def timeStep_def Let_def)

lemma tick_playing:
  "isPlaying s \<Longrightarrow> tick e s =
     (if progress (tickBody e s) \<ge> 1
      then (tickBody e s)\<lparr>isPlaying := False, events := events (tickBody e s) @ [Complete]\<rparr>
      else (tickBody e s)\<lparr>animFrameId := Some (frameId e)\<rparr>)"
  by (simp add: tick_def tickBody_def Let_def)

lemma tickBody_over:
  "(tickBody e s)\<lparr>activeSplit := a, lastStationIndex := l, events := ev,
                   particles := ps, ghostParticles := gs\<rparr>
   = (timeStep e s)\<lparr>activeSplit := a, lastStationIndex := l, events := ev,
                     particles := ps, ghostParticles := gs\<rparr>"
proof -
  let ?dt = "tickDelta e s"
  let ?c = "checkStations (timeStep e s)"
  let ?u = "updateParticles ?dt e ?c"
  have "(tickBody e s)\<lparr>activeSplit := a, lastStationIndex := l, events := ev,
                   particles := ps, ghostParticles := gs\<rparr>
      = (fadePopup ?dt ?u)\<lparr>activeSplit := a, lastStationIndex := l, events := ev,
                   particles := ps, ghostParticles := gs\<rparr>"
    by (simp add: tickBody_eq)
  also have "\<dots> = ?u\<lparr>activeSplit := a, lastStationIndex := l, events := ev,
                   particles := ps, ghostParticles := gs\<rparr>"
    by (simp only: fadePopup_over)
  also have "\<dots> = ?c\<lparr>activeSplit := a, lastStationIndex := l, events := ev,
                   particles := ps, ghostParticles := gs\<rparr>"
    by (simp add: updateParticles_eq)
  also have "\<dots> = (timeStep e s)\<lparr>activeSplit := a, lastStationIndex := l, events := ev,
                   particles := ps, ghostParticles := gs\<rparr>"
    unfolding checkStations_def by (simp only: checkStationsLoop_over)
  finally show ?thesis .
qed

lemma tickBody_time:
  "elapsedMs (tickBody e s) = elapsedMs s + tickDelta e s * speed s"
  "progress (tickBody e s) = (if totalTimeMs s > 0
                    then min 1 ((elapsedMs s + tickDelta e s * speed s) / totalTimeMs s)
                    else progress s)"
  "totalTimeMs (tickBody e s) = totalTimeMs s"
  "isPlaying (tickBody e s) = isPlaying s"
  "speed (tickBody e s) = speed s"
  "lastTimestamp (tickBody e s) = Some (now e)"
proof -
  let ?t = "tickBody e s"
  let ?o = "\<lambda>x. x\<lparr>activeSplit := None, lastStationIndex := 0, events := [],
                   particles := [], ghostParticles := []\<rparr>"
  have eq: "?o ?t = ?o (timeStep e s)" by (rule tickBody_over)
  have "elapsedMs ?t = elapsedMs (?o ?t)" by simp
  then show "elapsedMs ?t = elapsedMs s + tickDelta e s * speed s"
    by (simp only: eq) (simp add: timeStep_def)
  have "progress ?t = progress (?o ?t)" by simp
  then show "progress ?t = (if totalTimeMs s > 0
                    then min 1 ((elapsedMs s + tickDelta e s * speed s) / totalTimeMs s)
                    else progress s)"
    by (simp only: eq) (simp add: timeStep_def)
  have "totalTimeMs ?t = totalTimeMs (?o ?t)" by simp
  then show "totalTimeMs ?t = totalTimeMs s"
    by (simp only: eq) (simp add: timeStep_def)
  have "isPlaying ?t = isPlaying (?o ?t)" by simp
  then show "isPlaying ?t = isPlaying s"
    by (simp only: eq) (simp add: timeStep_def)
  have "speed ?t = speed (?o ?t)" by simp
  then show "speed ?t = speed s"
    by (simp only: eq) (simp add: timeStep_def)
  have "lastTimestamp ?t = lastTimestamp (?o ?t)" by simp
  then show "lastTimestamp ?t = Some (now e)"
    by (simp only: eq) (simp add: timeStep_def)
qed

lemma tick_time:
  assumes "isPlaying s"
  shows "elapsedMs (tick e s) = elapsedMs s + tickDelta e s * speed s"
    and "progress (tick e s) = (if totalTimeMs s > 0
                    then min 1 ((elapsedMs s + tickDelta e s * speed s) / totalTimeMs s)
                    else progress s)"
    and "totalTimeMs (tick e s) = totalTimeMs s"
    and "isPlaying (tick e s) = (progress (tick e s) < 1)"
    and "speed (tick e s) = speed s"
  using assms by (simp_all add: tick_playing tickBody_time)




lemma play_starts:
  "\<not> isPlaying s \<Longrightarrow> progress s < 1 \<Longrightarrow>
     play t0 e s = tick e (s\<lparr>isPlaying := True, lastTimestamp := Some t0\<rparr>)"
  by (simp add: play_def Let_def)



text \<open>
  C4. After \<open>seekTo(p)\<close> the progress is \<open>p\<close> clamped to [0, 1], \<open>elapsedMs\<close> is that
  progress times \<open>totalTimeMs\<close>, both particle pools are empty, and nothing else changed:
  \<open>lastStationIndex\<close>, \<open>isPlaying\<close>, the speed and the timelines are as before.
\<close>

theorem seekTo_effect:
  "progress (seekTo p s) = max 0 (min 1 p)
   \<and> 0 \<le> progress (seekTo p s) \<and> progress (seekTo p s) \<le> 1
   \<and> elapsedMs (seekTo p s) = progress (seekTo p s) * totalTimeMs s
   \<and> particles (seekTo p s) = [] \<and> ghostParticles (seekTo p s) = []
   \<and> lastStationIndex (seekTo p s) = lastStationIndex s
   \<and> seekTo p s = s\<lparr>progress := max 0 (min 1 p),
                      elapsedMs := max 0 (min 1 p) * totalTimeMs s,
                      particles := [], ghostParticles := []\<rparr>"
  by (simp add: seekTo_def Let_def)

text \<open>
  C10. \<open>play()\<close> on a tracker that is playing returns at once and changes nothing: the
  time base, the pending frame, progress, elapsed time, station index, pools and speed
  are as before.
\<close>

theorem play_while_playing:
  "isPlaying s \<Longrightarrow> play t0 e s = s"
  by (simp add: play_def)

theorem play_while_playing_witness:
  "isPlaying ((CourseTracker [] None None None)\<lparr>isPlaying := True, lastTimestamp := Some 40,
                 animFrameId := Some 7, elapsedMs := 400\<rparr>)
   \<and> play 50 \<lparr>now = 51, frameId = 8, rndSize = 0, rndVx = 0, rndVy = 0,
                rndGhostSize = 0, rndGhostVx = 0, rndGhostVy = 0\<rparr>
        ((CourseTracker [] None None None)\<lparr>isPlaying := True, lastTimestamp := Some 40,
                 animFrameId := Some 7, elapsedMs := 400\<rparr>)
      = (CourseTracker [] None None None)\<lparr>isPlaying := True, lastTimestamp := Some 40,
                 animFrameId := Some 7, elapsedMs := 400\<rparr>"
  using play_while_playing
    [of "(CourseTracker [] None None None)\<lparr>isPlaying := True, lastTimestamp := Some 40,
                 animFrameId := Some 7, elapsedMs := 400\<rparr>" 50
        "\<lparr>now = 51, frameId = 8, rndSize = 0, rndVx = 0, rndVy = 0,
                rndGhostSize = 0, rndGhostVx = 0, rndGhostVy = 0\<rparr>"]
  by simp

lemma cullLoop_prefix:
  "k \<le> length ps \<Longrightarrow>
     cullLoop k dt w ps = [q \<leftarrow> map (moveParticle dt w) (take k ps). 0 < life q] @ drop k ps"
proof (induction k arbitrary: ps)
  case 0
  then show ?case by simp
next
  case (Suc i)
  then have i: "i < length ps" by simp
  let ?p = "moveParticle dt w (ps ! i)"
  let ?ps1 = "ps[i := ?p]"
  have tk: "take (Suc i) ps = take i ps @ [ps ! i]" using i by (simp add: take_Suc_conv_app_nth)
  show ?case
  proof (cases "life ?p \<le> 0")
    case True
    let ?ps2 = "take i ?ps1 @ drop (Suc i) ?ps1"
    have len: "i \<le> length ?ps2" using i by simp
    have "cullLoop (Suc i) dt w ps = cullLoop i dt w ?ps2"
      using True by (simp add: Let_def)
    also have "\<dots> = [q \<leftarrow> map (moveParticle dt w) (take i ?ps2). 0 < life q] @ drop i ?ps2"
      using len by (rule Suc.IH)
    also have "take i ?ps2 = take i ps" using i by simp
    also have "drop i ?ps2 = drop (Suc i) ps" using i by simp
    finally show ?thesis using True tk by simp
  next
    case False
    have len: "i \<le> length ?ps1" using i by simp
    have "cullLoop (Suc i) dt w ps = cullLoop i dt w ?ps1"
      using False by (simp add: Let_def)
    also have "\<dots> = [q \<leftarrow> map (moveParticle dt w) (take i ?ps1). 0 < life q] @ drop i ?ps1"
      using len by (rule Suc.IH)
    also have "take i ?ps1 = take i ps" by simp
    also have "drop i ?ps1 = ?p # drop (Suc i) ps"
      using i by (simp add: drop_update_cancel Cons_nth_drop_Suc[symmetric] upd_conv_take_nth_drop)
    finally show ?thesis using False tk by simp
  qed
qed

lemma cullLoop_all:
  "cullLoop (length ps) dt w ps = [q \<leftarrow> map (moveParticle dt w) ps. 0 < life q]"
  by (simp add: cullLoop_prefix)

lemma shiftLoop_drop: "shiftLoop cap ps = drop (length ps - cap) ps"
proof (induction cap ps rule: shiftLoop.induct)
  case (1 cap ps)
  show ?case
  proof (cases "length ps > cap")
    case True
    then have "ps \<noteq> []" by auto
    have "shiftLoop cap ps = shiftLoop cap (tl ps)" using True by simp
    also have "\<dots> = drop (length (tl ps) - cap) (tl ps)" using True by (rule 1)
    also have "\<dots> = drop (length ps - cap) ps"
      using True by (cases ps) (simp_all add: Suc_diff_le)
    finally show ?thesis .
  next
    case False
    then show ?thesis by simp
  qed
qed

declare shiftLoop.simps [simp del]

lemma updatePool_eq:
  "updatePool cap dt w fresh ps =
     drop (length [q \<leftarrow> map (moveParticle dt w) (ps @ [fresh]). 0 < life q] - cap)
       [q \<leftarrow> map (moveParticle dt w) (ps @ [fresh]). 0 < life q]"
  unfolding updatePool_def Let_def by (simp only: cullLoop_all shiftLoop_drop)


lemma moveParticle_fields:
  "life (moveParticle dt w p) = life p - dt / w"
  "part_x (moveParticle dt w p) = part_x p + vx p"
  "part_y (moveParticle dt w p) = part_y p + vy p"
  "vx (moveParticle dt w p) = vx p"
  "vy (moveParticle dt w p) = vy p"
  "psize (moveParticle dt w p) = psize p"
  by (simp_all add: moveParticle_def)


lemma fadePopup_same:
  assumes "\<And>x a. f (x\<lparr>activeSplit := a\<rparr>) = f x"
  shows "f (fadePopup dt s) = f s"
proof -
  have "f (fadePopup dt s) = f ((fadePopup dt s)\<lparr>activeSplit := None\<rparr>)" by (simp only: assms)
  also have "\<dots> = f (s\<lparr>activeSplit := None\<rparr>)" by (simp only: fadePopup_over)
  also have "\<dots> = f s" by (simp only: assms)
  finally show ?thesis .
qed











lemma tickBody_same:
  assumes "\<And>x a l ev ps gs. f (x\<lparr>activeSplit := a, lastStationIndex := l, events := ev,
                   particles := ps, ghostParticles := gs\<rparr>) = f x"
  shows "f (tickBody e s) = f (timeStep e s)"
proof -
  have "f (tickBody e s) = f ((tickBody e s)\<lparr>activeSplit := None, lastStationIndex := 0,
            events := [], particles := [], ghostParticles := []\<rparr>)"
    by (simp only: assms)
  also have "\<dots> = f ((timeStep e s)\<lparr>activeSplit := None, lastStationIndex := 0,
            events := [], particles := [], ghostParticles := []\<rparr>)"
    by (simp only: tickBody_over)
  also have "\<dots> = f (timeStep e s)" by (simp only: assms)
  finally show ?thesis .
qed




lemma updatePool_single:
  "life fresh = 1 \<Longrightarrow> dt < w \<Longrightarrow> 0 < w \<Longrightarrow>
     updatePool (Suc cap) dt w fresh [] = [moveParticle dt w fresh]"
  by (simp add: updatePool_eq moveParticle_fields)










section \<open>Station crossings\<close>

lemma firedIndices_append: "firedIndices (xs @ ys) = firedIndices xs @ firedIndices ys"
  by (induction xs rule: firedIndices.induct) simp_all

lemma reachStation_same:
  assumes "\<And>x a l ev. f (x\<lparr>activeSplit := a, lastStationIndex := l, events := ev\<rparr>) = f x"
  shows "f (reachStation i s) = f s"
proof -
  have "f (reachStation i s)
      = f ((reachStation i s)\<lparr>activeSplit := None, lastStationIndex := 0, events := []\<rparr>)"
    by (simp only: assms)
  also have "\<dots> = f (s\<lparr>activeSplit := None, lastStationIndex := 0, events := []\<rparr>)"
    by (simp only: reachStation_over)
  also have "\<dots> = f s" by (simp only: assms)
  finally show ?thesis .
qed

lemma reachStation_facts:
  "progress (reachStation i s) = progress s"
  "stationProgresses (reachStation i s) = stationProgresses s"
  "lastStationIndex (reachStation i s) = int i"
  "\<exists>n sp. events (reachStation i s) = events s @ [StationReached i n sp]"
proof -
  show "progress (reachStation i s) = progress s" by (rule reachStation_same) simp
  have "stationPoints (reachStation i s) = stationPoints s" by (rule reachStation_same) simp
  then show "stationProgresses (reachStation i s) = stationProgresses s"
    by (rule stationProgresses_upd)
  show "lastStationIndex (reachStation i s) = int i"
    by (simp add: reachStation_def Let_def split: option.split)
  show "\<exists>n sp. events (reachStation i s) = events s @ [StationReached i n sp]"
    by (simp add: reachStation_def Let_def split: option.split)
qed

lemma crossed_Suc:
  "crossed s i (Suc k) =
     (if stationProgresses s ! i \<le> progress s \<and> lastStationIndex s < int i then [i] else [])
     @ [j \<leftarrow> [Suc i..<Suc i + k]. stationProgresses s ! j \<le> progress s \<and> lastStationIndex s < int j]"
proof -
  have "[i..<i + Suc k] = i # [Suc i..<Suc i + k]" by (simp add: upt_conv_Cons)
  then show ?thesis by (simp add: crossed_def)
qed

lemma crossed_after_reach:
  assumes "lastStationIndex s < int i"
  shows "crossed (reachStation i s) (Suc i) k =
     [j \<leftarrow> [Suc i..<Suc i + k]. stationProgresses s ! j \<le> progress s \<and> lastStationIndex s < int j]"
  unfolding crossed_def reachStation_facts
  by (rule filter_cong) (use assms in auto)

text \<open>What one run of the loop appends to the calls, and where it leaves the index.\<close>

lemma checkStationsLoop_events:
  "\<exists>new. events (checkStationsLoop i k s) = events s @ new
         \<and> firedIndices new = crossed s i k
         \<and> lastStationIndex (checkStationsLoop i k s)
             = (if crossed s i k = [] then lastStationIndex s else int (last (crossed s i k)))"
proof (induction k arbitrary: i s)
  case 0
  then show ?case by (simp add: crossed_def)
next
  case (Suc k)
  show ?case
  proof (cases "stationProgresses s ! i \<le> progress s \<and> lastStationIndex s < int i")
    case True
    let ?s' = "reachStation i s"
    have step: "checkStationsLoop i (Suc k) s = checkStationsLoop (i + 1) k ?s'"
      using True by simp
    from Suc.IH[of "i + 1" ?s'] obtain new where
      n: "events (checkStationsLoop (i + 1) k ?s') = events ?s' @ new"
         "firedIndices new = crossed ?s' (i + 1) k"
         "lastStationIndex (checkStationsLoop (i + 1) k ?s')
             = (if crossed ?s' (i + 1) k = [] then lastStationIndex ?s'
                else int (last (crossed ?s' (i + 1) k)))" by blast
    obtain nm sp where ev: "events ?s' = events s @ [StationReached i nm sp]"
      using reachStation_facts(4) by blast
    have c': "crossed ?s' (i + 1) k =
       [j \<leftarrow> [Suc i..<Suc i + k]. stationProgresses s ! j \<le> progress s \<and> lastStationIndex s < int j]"
      using True crossed_after_reach[of s i k] by simp
    have c: "crossed s i (Suc k) = i # crossed ?s' (i + 1) k"
      using True by (simp only: crossed_Suc c') simp
    have "events (checkStationsLoop i (Suc k) s) = events s @ (StationReached i nm sp # new)"
      using step n(1) ev by simp
    moreover have "firedIndices (StationReached i nm sp # new) = crossed s i (Suc k)"
      using n(2) c by simp
    moreover have "lastStationIndex (checkStationsLoop i (Suc k) s)
             = (if crossed s i (Suc k) = [] then lastStationIndex s
                else int (last (crossed s i (Suc k))))"
      using step n(3) c by (simp add: reachStation_facts(3))
    ultimately show ?thesis by blast
  next
    case False
    have step: "checkStationsLoop i (Suc k) s = checkStationsLoop (i + 1) k s"
      using False by auto
    have c: "crossed s i (Suc k) = crossed s (i + 1) k"
      using False by (simp only: crossed_Suc) (simp add: crossed_def)
    from Suc.IH[of "i + 1" s] show ?thesis unfolding step c .
  qed
qed

lemma sorted_le_last: "sorted xs \<Longrightarrow> x \<in> set xs \<Longrightarrow> x \<le> (last xs :: nat)"
proof (induction xs)
  case Nil
  then show ?case by simp
next
  case (Cons a xs)
  show ?case
  proof (cases "xs = []")
    case True
    then show ?thesis using Cons.prems by simp
  next
    case False
    have "last xs \<in> set xs" using False by simp
    then have "a \<le> last xs" using Cons.prems(1) by simp
    moreover have "x \<in> set xs \<Longrightarrow> x \<le> last xs" using Cons by simp
    ultimately show ?thesis using Cons.prems(2) False by auto
  qed
qed

lemma crossed_ascending: "sorted_wrt (<) (crossed s i k)"
  unfolding crossed_def by (rule sorted_wrt_filter) (simp add: sorted_wrt_upt)

lemma crossed_bounds:
  assumes "j \<in> set (crossed s i k)"
  shows "lastStationIndex s < int j" "crossed s i k \<noteq> []" "j \<le> last (crossed s i k)"
proof -
  show "lastStationIndex s < int j" using assms by (simp add: crossed_def)
  show ne: "crossed s i k \<noteq> []" using assms by auto
  have "sorted (crossed s i k)" using crossed_ascending by (rule strict_sorted_imp_sorted)
  then show "j \<le> last (crossed s i k)" using assms by (rule sorted_le_last)
qed

lemma crossed_contiguous:
  assumes "sorted (stationProgresses s)" "i \<in> set (crossed s 0 (length (stationProgresses s)))"
    "lastStationIndex s < int j" "j \<le> i"
  shows "j \<in> set (crossed s 0 (length (stationProgresses s)))"
proof -
  have i: "i < length (stationProgresses s)" "stationProgresses s ! i \<le> progress s"
    using assms(2) by (simp_all add: crossed_def)
  have "stationProgresses s ! j \<le> stationProgresses s ! i"
    using assms(1,4) i(1) by (rule sorted_nth_mono)
  then have "stationProgresses s ! j \<le> progress s" using i(2) by simp
  then show ?thesis using assms(3,4) i(1) by (simp add: crossed_def)
qed

lemma checkStations_events:
  "\<exists>new. events (checkStations s) = events s @ new
         \<and> firedIndices new = crossed s 0 (length (stationProgresses s))
         \<and> lastStationIndex (checkStations s)
             = (if crossed s 0 (length (stationProgresses s)) = [] then lastStationIndex s
                else int (last (crossed s 0 (length (stationProgresses s)))))"
  unfolding checkStations_def by (rule checkStationsLoop_events)

lemma timeStep_facts:
  "stationProgresses (timeStep e s) = stationProgresses s"
  "lastStationIndex (timeStep e s) = lastStationIndex s"
  "events (timeStep e s) = events s"
proof -
  have "stationPoints (timeStep e s) = stationPoints s" by (simp add: timeStep_def)
  then show "stationProgresses (timeStep e s) = stationProgresses s"
    by (rule stationProgresses_upd)
  show "lastStationIndex (timeStep e s) = lastStationIndex s" by (simp add: timeStep_def)
  show "events (timeStep e s) = events s" by (simp add: timeStep_def)
qed

lemma tickBody_stations:
  "events (tickBody e s) = events (checkStations (timeStep e s))"
  "lastStationIndex (tickBody e s) = lastStationIndex (checkStations (timeStep e s))"
  "progress (tickBody e s) = progress (timeStep e s)"
proof -
  let ?c = "checkStations (timeStep e s)"
  have "events (tickBody e s) = events (updateParticles (tickDelta e s) e ?c)"
    unfolding tickBody_eq by (rule fadePopup_same) simp
  then show "events (tickBody e s) = events ?c" by (simp add: updateParticles_eq)
  have "lastStationIndex (tickBody e s) = lastStationIndex (updateParticles (tickDelta e s) e ?c)"
    unfolding tickBody_eq by (rule fadePopup_same) simp
  then show "lastStationIndex (tickBody e s) = lastStationIndex ?c"
    by (simp add: updateParticles_eq)
  show "progress (tickBody e s) = progress (timeStep e s)" by (rule tickBody_same) simp
qed

text \<open>The stations a tick fires: those its new progress has reached, beyond the last index.\<close>

lemma tick_fires:
  assumes "isPlaying s"
  shows "\<exists>new. events (tick e s) = events s @ new
           \<and> firedIndices new =
               [j \<leftarrow> [0..<length (stationProgresses s)].
                  stationProgresses s ! j \<le> progress (tick e s) \<and> lastStationIndex s < int j]
           \<and> lastStationIndex (tick e s)
               = (if firedIndices new = [] then lastStationIndex s
                  else int (last (firedIndices new)))"
proof -
  let ?t = "timeStep e s"
  let ?n = "length (stationProgresses s)"
  from checkStations_events[of ?t] obtain new where
    n: "events (checkStations ?t) = events s @ new"
       "firedIndices new = crossed ?t 0 ?n"
       "lastStationIndex (checkStations ?t)
             = (if crossed ?t 0 ?n = [] then lastStationIndex s else int (last (crossed ?t 0 ?n)))"
    unfolding timeStep_facts by blast
  have pt: "progress (tick e s) = progress ?t"
    using assms by (simp add: tick_playing tickBody_stations)
  have cr: "crossed ?t 0 ?n = [j \<leftarrow> [0..<?n].
                  stationProgresses s ! j \<le> progress (tick e s) \<and> lastStationIndex s < int j]"
    by (simp add: crossed_def timeStep_facts pt)
  let ?new = "new @ (if 1 \<le> progress (tickBody e s) then [Complete] else [])"
  have "events (tick e s) = events s @ ?new"
    using assms n(1) by (simp add: tick_playing tickBody_stations)
  moreover have f: "firedIndices ?new = crossed ?t 0 ?n"
    using n(2) by (simp add: firedIndices_append)
  moreover have "lastStationIndex (tick e s)
               = (if firedIndices ?new = [] then lastStationIndex s
                  else int (last (firedIndices ?new)))"
    unfolding f using assms n(3) by (simp add: tick_playing tickBody_stations)
  ultimately show ?thesis unfolding cr by blast
qed

lemma cycleStep_same:
  "events s' = events s \<Longrightarrow> lastStationIndex s' = lastStationIndex s \<Longrightarrow> cycleStep s s'"
  unfolding cycleStep_def by (rule exI[of _ "[]"]) simp

lemma cycleStep_from:
  "events s0 = events s \<Longrightarrow> lastStationIndex s0 = lastStationIndex s \<Longrightarrow>
     cycleStep s0 s' \<Longrightarrow> cycleStep s s'"
  by (simp add: cycleStep_def)

lemma tick_cycle: "cycleStep s (tick e s)"
proof (cases "isPlaying s")
  case False
  then show ?thesis by (simp add: tick_def cycleStep_same)
next
  case True
  let ?n = "length (stationProgresses s)"
  let ?t = "timeStep e s"
  from tick_fires[OF True, of e] obtain new where
    n: "events (tick e s) = events s @ new"
       "firedIndices new = [j \<leftarrow> [0..<?n].
                  stationProgresses s ! j \<le> progress (tick e s) \<and> lastStationIndex s < int j]"
       "lastStationIndex (tick e s)
               = (if firedIndices new = [] then lastStationIndex s
                  else int (last (firedIndices new)))" by blast
  have srt: "sorted_wrt (<) (firedIndices new)"
    unfolding n(2) by (rule sorted_wrt_filter) (simp add: sorted_wrt_upt)
  have bnd: "\<forall>i \<in> set (firedIndices new).
      lastStationIndex s < int i \<and> int i \<le> lastStationIndex (tick e s)"
  proof
    fix i assume i: "i \<in> set (firedIndices new)"
    then have lo: "lastStationIndex s < int i" unfolding n(2) by simp
    have ne: "firedIndices new \<noteq> []" using i by auto
    have "sorted (firedIndices new)" using srt by (rule strict_sorted_imp_sorted)
    then have "i \<le> last (firedIndices new)" using i by (rule sorted_le_last)
    then have "int i \<le> lastStationIndex (tick e s)" using n(3) ne by simp
    with lo show "lastStationIndex s < int i \<and> int i \<le> lastStationIndex (tick e s)" ..
  qed
  have mono: "lastStationIndex s \<le> lastStationIndex (tick e s)"
  proof (cases "firedIndices new = []")
    case True
    then show ?thesis using n(3) by simp
  next
    case False
    then have "last (firedIndices new) \<in> set (firedIndices new)" by simp
    then show ?thesis using bnd by fastforce
  qed
  from n(1) srt bnd mono show ?thesis unfolding cycleStep_def by blast
qed

lemma exec_cycle: "\<not> restarts c s \<Longrightarrow> cycleStep s (exec c s)"
proof (cases c)
  case (Play t0 e)
  assume nr: "\<not> restarts c s"
  show ?thesis
  proof (cases "isPlaying s")
    case True
    then show ?thesis using Play by (simp add: play_def cycleStep_same)
  next
    case False
    then have "progress s < 1" using nr Play by simp
    then have "exec c s = tick e (s\<lparr>isPlaying := True, lastTimestamp := Some t0\<rparr>)"
      using False Play by (simp add: play_starts)
    moreover have "cycleStep (s\<lparr>isPlaying := True, lastTimestamp := Some t0\<rparr>)
        (tick e (s\<lparr>isPlaying := True, lastTimestamp := Some t0\<rparr>))" by (rule tick_cycle)
    ultimately show ?thesis by (simp add: cycleStep_def)
  qed
next
  case Pause
  then show ?thesis by (simp add: cycleStep_same pause_def Let_def split: option.split)
next
  case Restart
  assume "\<not> restarts c s"
  then show ?thesis using Restart by simp
next
  case (SeekTo p)
  then show ?thesis by (simp add: cycleStep_same seekTo_def Let_def)
next
  case (SetSpeed m)
  then show ?thesis by (simp add: cycleStep_same setSpeed_def)
next
  case (SetGhostSplits sps l)
  then show ?thesis by (simp add: cycleStep_same setGhostSplits_def Let_def)
next
  case ToggleGhost
  then show ?thesis by (simp add: cycleStep_same toggleGhost_def)
next
  case (Frame e)
  then show ?thesis by (simp add: tick_cycle)
qed

lemma cycleStep_trans:
  assumes "cycleStep s s1" "cycleStep s1 s2"
  shows "cycleStep s s2"
proof -
  from assms(1) obtain n1 where
    a: "events s1 = events s @ n1" "sorted_wrt (<) (firedIndices n1)"
       "\<forall>i \<in> set (firedIndices n1). lastStationIndex s < int i \<and> int i \<le> lastStationIndex s1"
       "lastStationIndex s \<le> lastStationIndex s1"
    unfolding cycleStep_def by blast
  from assms(2) obtain n2 where
    b: "events s2 = events s1 @ n2" "sorted_wrt (<) (firedIndices n2)"
       "\<forall>i \<in> set (firedIndices n2). lastStationIndex s1 < int i \<and> int i \<le> lastStationIndex s2"
       "lastStationIndex s1 \<le> lastStationIndex s2"
    unfolding cycleStep_def by blast
  have e: "events s2 = events s @ (n1 @ n2)" using a(1) b(1) by simp
  have cross: "\<forall>x \<in> set (firedIndices n1). \<forall>y \<in> set (firedIndices n2). x < y"
  proof (intro ballI)
    fix x y assume "x \<in> set (firedIndices n1)" "y \<in> set (firedIndices n2)"
    then have "int x \<le> lastStationIndex s1" "lastStationIndex s1 < int y" using a(3) b(3) by auto
    then show "x < y" by linarith
  qed
  have srt: "sorted_wrt (<) (firedIndices (n1 @ n2))"
    using a(2) b(2) cross by (simp add: firedIndices_append sorted_wrt_append)
  have bnd: "\<forall>i \<in> set (firedIndices (n1 @ n2)).
      lastStationIndex s < int i \<and> int i \<le> lastStationIndex s2"
  proof
    fix i assume "i \<in> set (firedIndices (n1 @ n2))"
    then have "i \<in> set (firedIndices n1) \<or> i \<in> set (firedIndices n2)"
      by (simp add: firedIndices_append)
    then show "lastStationIndex s < int i \<and> int i \<le> lastStationIndex s2"
      using a(3,4) b(3,4) by fastforce
  qed
  have "lastStationIndex s \<le> lastStationIndex s2" using a(4) b(4) by simp
  with e srt bnd show ?thesis unfolding cycleStep_def by blast
qed

lemma run_cycle: "sameCycle cs s \<Longrightarrow> cycleStep s (run cs s)"
proof (induction cs arbitrary: s)
  case Nil
  then show ?case by (simp add: cycleStep_same)
next
  case (Cons c cs)
  then have "cycleStep s (exec c s)" "cycleStep (exec c s) (run cs (exec c s))"
    by (simp_all add: exec_cycle)
  then show ?case using cycleStep_trans by simp
qed

lemma stationProgresses_facts:
  assumes "2 \<le> length (stationPoints s)" "arcTotal (splinePath s) \<noteq> 0"
  shows "sorted (stationProgresses s)"
    and "stationProgresses s ! 0 = 0"
    and "stationProgresses s ! (length (stationPoints s) - 1) = 1"
    and "length (stationProgresses s) = length (stationPoints s)"
proof -
  have "(1::nat) \<le> 30" by simp
  from progress_map_facts[OF assms(1) this] obtain path where
    p: "generateSplinePath (stationPoints s) 30 = Some path"
    and f: "let arc = computeArcLengths path;
                sp = map (\<lambda>i. stationToProgress i (length (stationPoints s)) arc 30)
                       [0..<length (stationPoints s)]
            in sorted sp \<and> sp ! 0 = 0
               \<and> (arcTotal path \<noteq> 0 \<longrightarrow> sp ! (length (stationPoints s) - 1) = 1)
               \<and> (arcTotal path = 0 \<longrightarrow> (\<forall>i < length (stationPoints s). sp ! i = 0))"
    by blast
  have sp: "splinePath s = path" by (simp add: splinePath_def p)
  have eq: "stationProgresses s = map (\<lambda>i. stationToProgress i (length (stationPoints s))
                (computeArcLengths path) 30) [0..<length (stationPoints s)]"
    by (simp add: stationProgresses_def arcLengths_def splinePath_def p)
  have nz: "arcTotal path \<noteq> 0" using assms(2) unfolding sp .
  from f show "sorted (stationProgresses s)" unfolding eq Let_def by blast
  from f show "stationProgresses s ! 0 = 0" unfolding eq Let_def by blast
  from f nz show "stationProgresses s ! (length (stationPoints s) - 1) = 1"
    unfolding eq Let_def by blast
  show "length (stationProgresses s) = length (stationPoints s)"
    by (simp add: stationProgresses_def)
qed

lemma total_0_100:
  "2 \<le> arcTotal (map (linearPoint
        [\<lparr>pt_x = 0, pt_y = 0, key = ''station_1'', name = ''SkiErg'', num = 1\<rparr>,
         \<lparr>pt_x = 100, pt_y = 0, key = ''station_2'', name = ''Sled Push'', num = 2\<rparr>] 30)
        [0..<30 + 1])"
proof -
  let ?pts = "[\<lparr>pt_x = 0, pt_y = 0, key = ''station_1'', name = ''SkiErg'', num = 1\<rparr>,
         \<lparr>pt_x = 100, pt_y = 0, key = ''station_2'', name = ''Sled Push'', num = 2\<rparr>]"
  define p0 where "p0 = linearPoint ?pts 30 0"
  define p1 where "p1 = linearPoint ?pts 30 1"
  define rest where "rest = map (linearPoint ?pts 30) [2..<31]"
  have "[0..<30 + 1] = 0 # 1 # [2..<31]" by (simp add: upt_conv_Cons)
  then have path: "map (linearPoint ?pts 30) [0..<30 + 1] = p0 # p1 # rest"
    unfolding p0_def p1_def rest_def by (simp only: list.map)
  have x0: "pt_x p0 = 0" by (simp add: p0_def linearPoint_def)
  have x1: "pt_x p1 = fl (100 * fl (1 / 30))" by (simp add: p1_def linearPoint_def)
  have "2 powr real_of_int (- 5) \<le> (1 / 30 :: real)" by (simp add: powr_neg_numeral)
  then have "2 powr real_of_int (- 5) \<le> fl (1 / 30)" by (rule fl_ge_pow2) simp
  then have "1 / 32 \<le> fl (1 / 30)" by (simp add: powr_neg_numeral)
  then have "2 powr real_of_int 1 \<le> 100 * fl (1 / 30)" by simp
  then have "2 powr real_of_int 1 \<le> fl (100 * fl (1 / 30))" by (rule fl_ge_pow2) simp
  then have "2 powr real_of_int 1 \<le> pt_x p1 - pt_x p0" unfolding x0 x1 by simp
  then have "2 powr real_of_int 1 \<le> arcStep p0 p1" by (rule arcStep_ge) simp
  also have "\<dots> \<le> arcTotal (p0 # p1 # rest)" by (rule arcTotal_ge_first)
  finally show ?thesis unfolding path by simp
qed

text \<open>
  C2. A tick while playing fires exactly the stations \<open>i\<close> with
  \<open>progress >= stationProgress[i]\<close> and \<open>i > lastStationIndex\<close>, in strictly ascending index
  order, and leaves \<open>lastStationIndex\<close> at the last one fired (firing station \<open>k\<close> sets it
  to \<open>k\<close>); when the station progresses are non-decreasing, no station between the old
  index and a fired one is left out. Within one play cycle (no restart) the indices
  fired over any sequence of operations and frames are strictly ascending, so each station
  fires at most once, and only stations beyond the index reached before.
\<close>

theorem crossing_events:
  "(isPlaying s \<longrightarrow>
      (\<exists>new. events (tick e s) = events s @ new
         \<and> firedIndices new =
             [i \<leftarrow> [0..<length (stationProgresses s)].
                stationProgresses s ! i \<le> progress (tick e s) \<and> lastStationIndex s < int i]
         \<and> sorted_wrt (<) (firedIndices new)
         \<and> lastStationIndex (tick e s)
             = (if firedIndices new = [] then lastStationIndex s
                else int (last (firedIndices new)))
         \<and> (sorted (stationProgresses s) \<longrightarrow>
              (\<forall>i \<in> set (firedIndices new). \<forall>j \<le> i.
                 lastStationIndex s < int j \<longrightarrow> j \<in> set (firedIndices new)))))
   \<and> (sameCycle cs s \<longrightarrow>
        (\<exists>fired. events (run cs s) = events s @ fired
           \<and> sorted_wrt (<) (firedIndices fired)
           \<and> distinct (firedIndices fired)
           \<and> (\<forall>i \<in> set (firedIndices fired). lastStationIndex s < int i)))
   \<and> lastStationIndex (reachStation k s) = int k"
proof (intro conjI impI)
  assume pl: "isPlaying s"
  let ?n = "length (stationProgresses s)"
  let ?f = "[i \<leftarrow> [0..<?n].
                stationProgresses s ! i \<le> progress (tick e s) \<and> lastStationIndex s < int i]"
  from tick_fires[OF pl, of e] obtain new where
    n: "events (tick e s) = events s @ new"
       "firedIndices new = ?f"
       "lastStationIndex (tick e s)
               = (if firedIndices new = [] then lastStationIndex s
                  else int (last (firedIndices new)))" by blast
  have srt: "sorted_wrt (<) (firedIndices new)"
    unfolding n(2) by (rule sorted_wrt_filter) (simp add: sorted_wrt_upt)
  have cont: "sorted (stationProgresses s) \<longrightarrow>
              (\<forall>i \<in> set (firedIndices new). \<forall>j \<le> i.
                 lastStationIndex s < int j \<longrightarrow> j \<in> set (firedIndices new))"
  proof (intro impI ballI allI)
    fix i j
    assume s: "sorted (stationProgresses s)" and i: "i \<in> set (firedIndices new)"
      and j: "j \<le> i" "lastStationIndex s < int j"
    have i': "i < ?n" "stationProgresses s ! i \<le> progress (tick e s)"
      using i unfolding n(2) by simp_all
    have "stationProgresses s ! j \<le> stationProgresses s ! i"
      using s j(1) i'(1) by (rule sorted_nth_mono)
    then have "stationProgresses s ! j \<le> progress (tick e s)" using i'(2) by simp
    then show "j \<in> set (firedIndices new)" unfolding n(2) using j i'(1) by simp
  qed
  from n srt cont show "\<exists>new. events (tick e s) = events s @ new
         \<and> firedIndices new = ?f
         \<and> sorted_wrt (<) (firedIndices new)
         \<and> lastStationIndex (tick e s)
             = (if firedIndices new = [] then lastStationIndex s
                else int (last (firedIndices new)))
         \<and> (sorted (stationProgresses s) \<longrightarrow>
              (\<forall>i \<in> set (firedIndices new). \<forall>j \<le> i.
                 lastStationIndex s < int j \<longrightarrow> j \<in> set (firedIndices new)))"
    by blast
next
  assume "sameCycle cs s"
  then have "cycleStep s (run cs s)" by (rule run_cycle)
  then obtain fired where
    f: "events (run cs s) = events s @ fired" "sorted_wrt (<) (firedIndices fired)"
       "\<forall>i \<in> set (firedIndices fired). lastStationIndex s < int i"
    unfolding cycleStep_def by blast
  have "distinct (firedIndices fired)" using f(2) by (simp add: strict_sorted_iff)
  with f show "\<exists>fired. events (run cs s) = events s @ fired
           \<and> sorted_wrt (<) (firedIndices fired)
           \<and> distinct (firedIndices fired)
           \<and> (\<forall>i \<in> set (firedIndices fired). lastStationIndex s < int i)" by blast
next
  show "lastStationIndex (reachStation k s) = int k" by (rule reachStation_facts(3))
qed

lemma list_two: "length xs = 2 \<Longrightarrow> xs = [xs ! 0, xs ! 1]"
  by (cases xs) (auto simp: length_Suc_conv numeral_2_eq_2)

theorem crossing_events_witness:
  "isPlaying ((CourseTracker
        [\<lparr>pt_x = 0, pt_y = 0, key = ''station_1'', name = ''SkiErg'', num = 1\<rparr>,
         \<lparr>pt_x = 100, pt_y = 0, key = ''station_2'', name = ''Sled Push'', num = 2\<rparr>]
        (Some [\<lparr>stationNum = 1, timeMs = 1000, splitName = ''SkiErg''\<rparr>,
               \<lparr>stationNum = 2, timeMs = 2000, splitName = ''Sled Push''\<rparr>]) None None)
      \<lparr>isPlaying := True, lastTimestamp := Some 1000\<rparr>)
   \<and> sorted (stationProgresses ((CourseTracker
        [\<lparr>pt_x = 0, pt_y = 0, key = ''station_1'', name = ''SkiErg'', num = 1\<rparr>,
         \<lparr>pt_x = 100, pt_y = 0, key = ''station_2'', name = ''Sled Push'', num = 2\<rparr>]
        (Some [\<lparr>stationNum = 1, timeMs = 1000, splitName = ''SkiErg''\<rparr>,
               \<lparr>stationNum = 2, timeMs = 2000, splitName = ''Sled Push''\<rparr>]) None None)
      \<lparr>isPlaying := True, lastTimestamp := Some 1000\<rparr>))
   \<and> sameCycle [Frame \<lparr>now = 2000, frameId = 1, rndSize = 0, rndVx = 0, rndVy = 0,
        rndGhostSize = 0, rndGhostVx = 0, rndGhostVy = 0\<rparr>] ((CourseTracker
        [\<lparr>pt_x = 0, pt_y = 0, key = ''station_1'', name = ''SkiErg'', num = 1\<rparr>,
         \<lparr>pt_x = 100, pt_y = 0, key = ''station_2'', name = ''Sled Push'', num = 2\<rparr>]
        (Some [\<lparr>stationNum = 1, timeMs = 1000, splitName = ''SkiErg''\<rparr>,
               \<lparr>stationNum = 2, timeMs = 2000, splitName = ''Sled Push''\<rparr>]) None None)
      \<lparr>isPlaying := True, lastTimestamp := Some 1000\<rparr>)
   \<and> stationProgresses ((CourseTracker
        [\<lparr>pt_x = 0, pt_y = 0, key = ''station_1'', name = ''SkiErg'', num = 1\<rparr>,
         \<lparr>pt_x = 100, pt_y = 0, key = ''station_2'', name = ''Sled Push'', num = 2\<rparr>]
        (Some [\<lparr>stationNum = 1, timeMs = 1000, splitName = ''SkiErg''\<rparr>,
               \<lparr>stationNum = 2, timeMs = 2000, splitName = ''Sled Push''\<rparr>]) None None)
      \<lparr>isPlaying := True, lastTimestamp := Some 1000\<rparr>) = [0, 1]
   \<and> progress (tick \<lparr>now = 2000, frameId = 1, rndSize = 0, rndVx = 0, rndVy = 0,
        rndGhostSize = 0, rndGhostVx = 0, rndGhostVy = 0\<rparr> ((CourseTracker
        [\<lparr>pt_x = 0, pt_y = 0, key = ''station_1'', name = ''SkiErg'', num = 1\<rparr>,
         \<lparr>pt_x = 100, pt_y = 0, key = ''station_2'', name = ''Sled Push'', num = 2\<rparr>]
        (Some [\<lparr>stationNum = 1, timeMs = 1000, splitName = ''SkiErg''\<rparr>,
               \<lparr>stationNum = 2, timeMs = 2000, splitName = ''Sled Push''\<rparr>]) None None)
      \<lparr>isPlaying := True, lastTimestamp := Some 1000\<rparr>)) = 1
   \<and> firedIndices (events (tick \<lparr>now = 2000, frameId = 1, rndSize = 0, rndVx = 0, rndVy = 0,
        rndGhostSize = 0, rndGhostVx = 0, rndGhostVy = 0\<rparr> ((CourseTracker
        [\<lparr>pt_x = 0, pt_y = 0, key = ''station_1'', name = ''SkiErg'', num = 1\<rparr>,
         \<lparr>pt_x = 100, pt_y = 0, key = ''station_2'', name = ''Sled Push'', num = 2\<rparr>]
        (Some [\<lparr>stationNum = 1, timeMs = 1000, splitName = ''SkiErg''\<rparr>,
               \<lparr>stationNum = 2, timeMs = 2000, splitName = ''Sled Push''\<rparr>]) None None)
      \<lparr>isPlaying := True, lastTimestamp := Some 1000\<rparr>))) = [0, 1]
   \<and> firedIndices (events (run [Frame \<lparr>now = 2000, frameId = 1, rndSize = 0, rndVx = 0, rndVy = 0,
        rndGhostSize = 0, rndGhostVx = 0, rndGhostVy = 0\<rparr>] ((CourseTracker
        [\<lparr>pt_x = 0, pt_y = 0, key = ''station_1'', name = ''SkiErg'', num = 1\<rparr>,
         \<lparr>pt_x = 100, pt_y = 0, key = ''station_2'', name = ''Sled Push'', num = 2\<rparr>]
        (Some [\<lparr>stationNum = 1, timeMs = 1000, splitName = ''SkiErg''\<rparr>,
               \<lparr>stationNum = 2, timeMs = 2000, splitName = ''Sled Push''\<rparr>]) None None)
      \<lparr>isPlaying := True, lastTimestamp := Some 1000\<rparr>))) = [0, 1]
   \<and> lastStationIndex (tick \<lparr>now = 2000, frameId = 1, rndSize = 0, rndVx = 0, rndVy = 0,
        rndGhostSize = 0, rndGhostVx = 0, rndGhostVy = 0\<rparr> ((CourseTracker
        [\<lparr>pt_x = 0, pt_y = 0, key = ''station_1'', name = ''SkiErg'', num = 1\<rparr>,
         \<lparr>pt_x = 100, pt_y = 0, key = ''station_2'', name = ''Sled Push'', num = 2\<rparr>]
        (Some [\<lparr>stationNum = 1, timeMs = 1000, splitName = ''SkiErg''\<rparr>,
               \<lparr>stationNum = 2, timeMs = 2000, splitName = ''Sled Push''\<rparr>]) None None)
      \<lparr>isPlaying := True, lastTimestamp := Some 1000\<rparr>)) = 1"
proof -
  let ?s = "((CourseTracker
        [\<lparr>pt_x = 0, pt_y = 0, key = ''station_1'', name = ''SkiErg'', num = 1\<rparr>,
         \<lparr>pt_x = 100, pt_y = 0, key = ''station_2'', name = ''Sled Push'', num = 2\<rparr>]
        (Some [\<lparr>stationNum = 1, timeMs = 1000, splitName = ''SkiErg''\<rparr>,
               \<lparr>stationNum = 2, timeMs = 2000, splitName = ''Sled Push''\<rparr>]) None None)
      \<lparr>isPlaying := True, lastTimestamp := Some 1000\<rparr>)"
  let ?e = "\<lparr>now = 2000, frameId = 1, rndSize = 0, rndVx = 0, rndVy = 0,
        rndGhostSize = 0, rndGhostVx = 0, rndGhostVy = 0\<rparr>"
  have pts: "stationPoints ?s =
        [\<lparr>pt_x = 0, pt_y = 0, key = ''station_1'', name = ''SkiErg'', num = 1\<rparr>,
         \<lparr>pt_x = 100, pt_y = 0, key = ''station_2'', name = ''Sled Push'', num = 2\<rparr>]"
    by (simp add: CourseTracker_def Let_def)
  have n2: "2 \<le> length (stationPoints ?s)" unfolding pts by simp
  have "splinePath ?s = map (linearPoint (stationPoints ?s) 30) [0..<30 + 1]"
    unfolding splinePath_def pts by (simp add: generateSplinePath_def)
  then have "2 \<le> arcTotal (splinePath ?s)" unfolding pts by (simp only: total_0_100)
  then have d: "arcTotal (splinePath ?s) \<noteq> 0" by simp
  note spf = stationProgresses_facts[OF n2 d]
  have len: "length (stationProgresses ?s) = 2" using spf(4) pts by simp
  have sp1: "stationProgresses ?s ! 1 = 1" using spf(3) pts by simp
  have "stationProgresses ?s = [stationProgresses ?s ! 0, stationProgresses ?s ! 1]"
    using len by (rule list_two)
  then have sp: "stationProgresses ?s = [0, 1]" unfolding spf(2) sp1 .
  have pl: "isPlaying ?s" by simp
  have f: "elapsedMs ?s = 0" "speed ?s = 10" "totalTimeMs ?s = 3000" "tickDelta ?e ?s = 1000"
      "lastStationIndex ?s = - 1" "events ?s = []"
    by (simp_all add: CourseTracker_def cumulative_def Let_def tickDelta_def)
  have pr: "progress (tick ?e ?s) = 1" using pl f by (simp add: tick_time)
  have sc: "sameCycle [Frame ?e] ?s" by simp
  note t = crossing_events[of ?s ?e "[Frame ?e]" 0]
  from conjunct1[OF t, THEN mp, OF pl] obtain new where
    n: "events (tick ?e ?s) = events ?s @ new"
       "firedIndices new =
             [i \<leftarrow> [0..<length (stationProgresses ?s)].
                stationProgresses ?s ! i \<le> progress (tick ?e ?s) \<and> lastStationIndex ?s < int i]"
       "lastStationIndex (tick ?e ?s)
             = (if firedIndices new = [] then lastStationIndex ?s
                else int (last (firedIndices new)))" by blast
  have "[0..<length (stationProgresses ?s)] = [0, 1]"
    unfolding len by (simp add: upt_conv_Cons)
  then have fi: "firedIndices new = [0, 1]"
    unfolding n(2) pr sp f(5) by simp
  have ev: "firedIndices (events (tick ?e ?s)) = [0, 1]"
    unfolding n(1) f(6) using fi by simp
  have li: "lastStationIndex (tick ?e ?s) = 1" unfolding n(3) fi by simp
  from conjunct1[OF conjunct2[OF t], THEN mp, OF sc] obtain fired where
    r: "events (run [Frame ?e] ?s) = events ?s @ fired" "distinct (firedIndices fired)" by blast
  have rn: "firedIndices (events (run [Frame ?e] ?s)) = [0, 1]" using ev by simp
  show ?thesis using pl spf(1) sc sp pr ev rn li by (intro conjI)
qed

section \<open>Properties of the station model\<close>

declare digitsOf.simps [simp del]

lemma getProp_ok: "v \<noteq> JUndefined \<Longrightarrow> v \<noteq> JNull \<Longrightarrow> \<exists>r. getProp v k = Inr r"
  by (cases v) simp_all

lemma truthy_present: "truthy v \<Longrightarrow> v \<noteq> JUndefined \<and> v \<noteq> JNull"
  by (cases v) simp_all

lemma thenE_Inr [simp]: "thenE (Inr v) f = f v"
  by (simp add: thenE_def)

lemma thenE_Inl [simp]: "thenE (Inl e) f = Inl e"
  by (simp add: thenE_def)

lemma entryPoint_station:
  assumes "truthy s"
  shows "\<exists>p. entryPoint s k (\<lambda>v. getProp v ''name'') n = Inr p \<and> wnum p = n \<and> wkey p = k"
proof -
  have ok: "s \<noteq> JUndefined" "s \<noteq> JNull" using assms truthy_present by blast+
  obtain vx where x: "getProp s ''x'' = Inr vx" using getProp_ok[OF ok] by blast
  obtain vy where y: "getProp s ''y'' = Inr vy" using getProp_ok[OF ok] by blast
  obtain vn where n: "getProp s ''name'' = Inr vn" using getProp_ok[OF ok] by blast
  show ?thesis by (simp add: entryPoint_def x y n)
qed

lemma entryPoint_marker:
  assumes "truthy s"
  shows "\<exists>p. entryPoint s k (\<lambda>v. Inr c) n = Inr p \<and> wnum p = n \<and> wkey p = k"
proof -
  have ok: "s \<noteq> JUndefined" "s \<noteq> JNull" using assms truthy_present by blast+
  obtain vx where x: "getProp s ''x'' = Inr vx" using getProp_ok[OF ok] by blast
  obtain vy where y: "getProp s ''y'' = Inr vy" using getProp_ok[OF ok] by blast
  show ?thesis by (simp add: entryPoint_def x y)
qed

lemma stationLoop_ok:
  assumes "parsed \<noteq> JUndefined" "parsed \<noteq> JNull"
  shows "\<exists>new. stationLoop parsed is acc = Inr (acc @ new)
           \<and> map wnum new = map int [i \<leftarrow> is. present parsed (stationKey i)]
           \<and> map wkey new = map stationKey [i \<leftarrow> is. present parsed (stationKey i)]"
proof (induction "is" arbitrary: acc)
  case Nil
  then show ?case by simp
next
  case (Cons i rest)
  obtain s where s: "getProp parsed (''station_'' @ digitsOf i) = Inr s"
    using getProp_ok[OF assms] by blast
  show ?case
  proof (cases "truthy s")
    case True
    then have pr: "present parsed (stationKey i)" using s by (simp add: present_def stationKey_def)
    from entryPoint_station[OF True] obtain p where
      p: "entryPoint s (''station_'' @ digitsOf i) (\<lambda>v. getProp v ''name'') (int i) = Inr p"
         "wnum p = int i" "wkey p = ''station_'' @ digitsOf i" by blast
    from Cons.IH[of "acc @ [p]"] obtain new where
      n: "stationLoop parsed rest (acc @ [p]) = Inr ((acc @ [p]) @ new)"
         "map wnum new = map int [i \<leftarrow> rest. present parsed (stationKey i)]"
         "map wkey new = map stationKey [i \<leftarrow> rest. present parsed (stationKey i)]" by blast
    have "stationLoop parsed (i # rest) acc = Inr (acc @ (p # new))"
      using s True p(1) n(1) by simp
    moreover have "map wnum (p # new) = map int [j \<leftarrow> i # rest. present parsed (stationKey j)]"
      using pr p(2) n(2) by simp
    moreover have "map wkey (p # new) = map stationKey [j \<leftarrow> i # rest. present parsed (stationKey j)]"
      using pr p(3) n(3) by (simp add: stationKey_def)
    ultimately show ?thesis by blast
  next
    case False
    then have pr: "\<not> present parsed (stationKey i)" using s by (simp add: present_def stationKey_def)
    have "stationLoop parsed (i # rest) acc = stationLoop parsed rest acc"
      using s False by simp
    then show ?thesis using Cons.IH[of acc] pr by simp
  qed
qed

lemma addStartFinish_ok:
  assumes "parsed \<noteq> JUndefined" "parsed \<noteq> JNull"
  shows "\<exists>ps. addStartFinish parsed b = Inr ps
           \<and> [n \<leftarrow> map wnum ps. 1 \<le> n] = []
           \<and> (\<not> (b \<and> present parsed ''start_finish'') \<longrightarrow> ps = [])"
proof (cases b)
  case False
  then show ?thesis by (simp add: addStartFinish_def)
next
  case True
  obtain sf where sf: "getProp parsed ''start_finish'' = Inr sf"
    using getProp_ok[OF assms] by blast
  show ?thesis
  proof (cases "truthy sf")
    case t: True
    from entryPoint_marker[OF t] obtain p where
      "entryPoint sf ''start_finish'' (\<lambda>v. Inr (JStr ''Start/Finish'')) 0 = Inr p" "wnum p = 0"
      by blast
    then show ?thesis using True sf t by (simp add: addStartFinish_def present_def)
  next
    case f: False
    then show ?thesis using True sf by (simp add: addStartFinish_def present_def)
  qed
qed

lemma addRoxzone_ok:
  assumes "parsed \<noteq> JUndefined" "parsed \<noteq> JNull"
  shows "\<exists>ps'. addRoxzone parsed b ps = Inr ps'
           \<and> [n \<leftarrow> map wnum ps'. 1 \<le> n] = [n \<leftarrow> map wnum ps. 1 \<le> n]
           \<and> (\<not> (b \<and> present parsed ''roxzone'') \<longrightarrow> ps' = ps)"
proof (cases b)
  case False
  then show ?thesis by (simp add: addRoxzone_def)
next
  case True
  obtain rz where rz: "getProp parsed ''roxzone'' = Inr rz"
    using getProp_ok[OF assms] by blast
  show ?thesis
  proof (cases "truthy rz")
    case t: True
    from entryPoint_marker[OF t] obtain p where
      p: "entryPoint rz ''roxzone'' (\<lambda>v. Inr (JStr ''ROXZONE'')) (- 1) = Inr p" "wnum p = - 1"
      by blast
    let ?mid = "length ps div 2"
    have r: "addRoxzone parsed b ps = Inr (take ?mid ps @ [p] @ drop ?mid ps)"
      using True rz t p(1) by (simp add: addRoxzone_def Let_def)
    have "[n \<leftarrow> map wnum (take ?mid ps @ [p] @ drop ?mid ps). 1 \<le> n]
        = [n \<leftarrow> map wnum (take ?mid ps). 1 \<le> n] @ [n \<leftarrow> map wnum (drop ?mid ps). 1 \<le> n]"
      using p(2) by simp
    also have "\<dots> = [n \<leftarrow> map wnum (take ?mid ps @ drop ?mid ps). 1 \<le> n]"
      by (simp only: map_append filter_append)
    also have "\<dots> = [n \<leftarrow> map wnum ps. 1 \<le> n]" by (simp only: append_take_drop_id)
    finally have "[n \<leftarrow> map wnum (take ?mid ps @ [p] @ drop ?mid ps). 1 \<le> n]
        = [n \<leftarrow> map wnum ps. 1 \<le> n]" .
    then show ?thesis using r True rz t by (simp add: present_def)
  next
    case f: False
    then show ?thesis using True rz by (simp add: addRoxzone_def present_def)
  qed
qed

lemma present_empty: "\<not> present (JObj []) k"
  by (simp add: present_def)

text \<open>
  C5 (amended). For every waypoint mapping that is there (an object, or any value but
  \<open>undefined\<close> and \<open>null\<close>), given as it is or as the text \<open>JSON.parse\<close> accepts,
  \<open>buildStationPoints\<close> returns a station sequence and does not throw: the numbered
  stations that are present, in ascending order of their number (with the two special
  markers around them when they are asked for), and the empty sequence for the empty
  mapping. A text that \<open>JSON.parse\<close> rejects is not caught: the \<open>SyntaxError\<close> reaches the
  caller.
\<close>

theorem buildStationPoints_total:
  "(parseCoords JSON_parse coords = Inr parsed \<and> parsed \<noteq> JUndefined \<and> parsed \<noteq> JNull \<longrightarrow>
      (\<exists>pts. buildStationPoints JSON_parse coords includeSpecial = Inr pts
         \<and> [n \<leftarrow> map wnum pts. 1 \<le> n] = map int [i \<leftarrow> [1..<9]. present parsed (stationKey i)]
         \<and> sorted_wrt (<) [n \<leftarrow> map wnum pts. 1 \<le> n]
         \<and> (\<not> includeSpecial \<longrightarrow>
              map wnum pts = map int [i \<leftarrow> [1..<9]. present parsed (stationKey i)]
              \<and> map wkey pts = map stationKey [i \<leftarrow> [1..<9]. present parsed (stationKey i)])
         \<and> (parsed = JObj [] \<longrightarrow> pts = [])))
   \<and> (parseCoords JSON_parse coords = Inl err \<longrightarrow>
        buildStationPoints JSON_parse coords includeSpecial = Inl err)
   \<and> (\<forall>str. parseCoords JSON_parse (JStr str) = JSON_parse str)
   \<and> (\<forall>kvs. parseCoords JSON_parse (JObj kvs) = Inr (JObj kvs))"
proof (intro conjI impI allI)
  assume a: "parseCoords JSON_parse coords = Inr parsed \<and> parsed \<noteq> JUndefined \<and> parsed \<noteq> JNull"
  then have pc: "parseCoords JSON_parse coords = Inr parsed"
    and ok: "parsed \<noteq> JUndefined" "parsed \<noteq> JNull" by simp_all
  let ?st = "[i \<leftarrow> [1..<9]. present parsed (stationKey i)]"
  from addStartFinish_ok[OF ok, of includeSpecial] obtain p0 where
    p0: "addStartFinish parsed includeSpecial = Inr p0" "[n \<leftarrow> map wnum p0. 1 \<le> n] = []"
        "\<not> (includeSpecial \<and> present parsed ''start_finish'') \<longrightarrow> p0 = []" by blast
  from stationLoop_ok[OF ok, of "[1..<9]" p0] obtain new where
    n: "stationLoop parsed [1..<9] p0 = Inr (p0 @ new)"
       "map wnum new = map int ?st" "map wkey new = map stationKey ?st" by blast
  from addRoxzone_ok[OF ok, of includeSpecial "p0 @ new"] obtain pts where
    r: "addRoxzone parsed includeSpecial (p0 @ new) = Inr pts"
       "[n \<leftarrow> map wnum pts. 1 \<le> n] = [n \<leftarrow> map wnum (p0 @ new). 1 \<le> n]"
       "\<not> (includeSpecial \<and> present parsed ''roxzone'') \<longrightarrow> pts = p0 @ new" by blast
  have b: "buildStationPoints JSON_parse coords includeSpecial = Inr pts"
    by (simp only: buildStationPoints_def pc thenE_Inr p0(1) n(1) r(1))
  have pos: "[m \<leftarrow> map int ?st. 1 \<le> m] = map int ?st"
    by (rule filter_True) auto
  have f: "[n \<leftarrow> map wnum pts. 1 \<le> n] = map int ?st"
    unfolding r(2) using p0(2) n(2) pos by simp
  have "sorted_wrt (<) ?st" by (rule sorted_wrt_filter) (simp add: sorted_wrt_upt)
  then have s: "sorted_wrt (<) (map int ?st)" by (simp add: sorted_wrt_map)
  have ns: "\<not> includeSpecial \<longrightarrow> map wnum pts = map int ?st \<and> map wkey pts = map stationKey ?st"
    using p0(3) r(3) n(2,3) by simp
  have e: "parsed = JObj [] \<longrightarrow> pts = []"
  proof
    assume "parsed = JObj []"
    then have np: "\<And>k. \<not> present parsed k" by (simp add: present_empty)
    then have "p0 = []" using p0(3) by simp
    moreover have "new = []" using n(2) np by simp
    ultimately show "pts = []" using r(3) np by simp
  qed
  from b f s ns e show "\<exists>pts. buildStationPoints JSON_parse coords includeSpecial = Inr pts
         \<and> [n \<leftarrow> map wnum pts. 1 \<le> n] = map int ?st
         \<and> sorted_wrt (<) [n \<leftarrow> map wnum pts. 1 \<le> n]
         \<and> (\<not> includeSpecial \<longrightarrow>
              map wnum pts = map int ?st \<and> map wkey pts = map stationKey ?st)
         \<and> (parsed = JObj [] \<longrightarrow> pts = [])" by simp
next
  assume "parseCoords JSON_parse coords = Inl err"
  then show "buildStationPoints JSON_parse coords includeSpecial = Inl err"
    by (simp add: buildStationPoints_def)
next
  fix str show "parseCoords JSON_parse (JStr str) = JSON_parse str" by (simp add: parseCoords_def)
next
  fix kvs show "parseCoords JSON_parse (JObj kvs) = Inr (JObj kvs)" by (simp add: parseCoords_def)
qed

text \<open>
  C5 as stated fails: with no mapping at all (\<open>undefined\<close>, \<open>null\<close>) the first property
  read throws a \<open>TypeError\<close>, and where \<open>JSON.parse\<close> throws its \<open>SyntaxError\<close> on a
  text that is not JSON, so does \<open>buildStationPoints\<close>.
\<close>

theorem buildStationPoints_throws_counterexample:
  "buildStationPoints (\<lambda>txt. Inl SyntaxError) JUndefined False = Inl TypeError
   \<and> buildStationPoints (\<lambda>txt. Inl SyntaxError) JUndefined True = Inl TypeError
   \<and> buildStationPoints (\<lambda>txt. Inl SyntaxError) JNull False = Inl TypeError
   \<and> buildStationPoints (\<lambda>txt. Inl SyntaxError) (JStr ''station_1: 10, 20'') False = Inl SyntaxError"
  by (simp add: buildStationPoints_def parseCoords_def addStartFinish_def upt_conv_Cons)

theorem buildStationPoints_total_witness:
  "parseCoords (\<lambda>str. Inl SyntaxError)
      (JObj [(''station_2'', JObj [(''x'', JNum 70), (''y'', JNum 20), (''name'', JStr ''Sled Push'')]),
             (''roxzone'', JObj [(''x'', JNum 50), (''y'', JNum 50)]),
             (''station_1'', JObj [(''x'', JNum 10), (''y'', JNum 20), (''name'', JStr ''SkiErg'')])])
     = Inr (JObj [(''station_2'', JObj [(''x'', JNum 70), (''y'', JNum 20), (''name'', JStr ''Sled Push'')]),
             (''roxzone'', JObj [(''x'', JNum 50), (''y'', JNum 50)]),
             (''station_1'', JObj [(''x'', JNum 10), (''y'', JNum 20), (''name'', JStr ''SkiErg'')])])
   \<and> (\<exists>pts. buildStationPoints (\<lambda>str. Inl SyntaxError)
          (JObj [(''station_2'', JObj [(''x'', JNum 70), (''y'', JNum 20), (''name'', JStr ''Sled Push'')]),
             (''roxzone'', JObj [(''x'', JNum 50), (''y'', JNum 50)]),
             (''station_1'', JObj [(''x'', JNum 10), (''y'', JNum 20), (''name'', JStr ''SkiErg'')])])
          False = Inr pts
        \<and> map wnum pts = [1, 2] \<and> map wkey pts = [''station_1'', ''station_2''])
   \<and> (\<exists>pts. buildStationPoints (\<lambda>str. Inl SyntaxError) (JObj []) True = Inr pts \<and> pts = [])
   \<and> parseCoords (\<lambda>str. Inl SyntaxError) (JStr ''station_1: 10, 20'') = Inl SyntaxError
   \<and> buildStationPoints (\<lambda>str. Inl SyntaxError) (JStr ''station_1: 10, 20'') False = Inl SyntaxError"
proof -
  let ?P = "\<lambda>str. Inl SyntaxError :: js_error + js_value"
  let ?C = "JObj [(''station_2'', JObj [(''x'', JNum 70), (''y'', JNum 20), (''name'', JStr ''Sled Push'')]),
             (''roxzone'', JObj [(''x'', JNum 50), (''y'', JNum 50)]),
             (''station_1'', JObj [(''x'', JNum 10), (''y'', JNum 20), (''name'', JStr ''SkiErg'')])]"
  have pc: "parseCoords ?P ?C = Inr ?C" by (simp add: parseCoords_def)
  have st: "[i \<leftarrow> [1..<9]. present ?C (stationKey i)] = [1, 2]"
    by (simp add: upt_conv_Cons present_def stationKey_def digitsOf.simps)
  have k: "map stationKey [1, 2] = [''station_1'', ''station_2'']"
    by (simp add: stationKey_def digitsOf.simps)
  from buildStationPoints_total[where JSON_parse = ?P and coords = ?C and parsed = ?C and includeSpecial = False] pc obtain pts where
    "buildStationPoints ?P ?C False = Inr pts"
    "map wnum pts = map int [i \<leftarrow> [1..<9]. present ?C (stationKey i)]"
    "map wkey pts = map stationKey [i \<leftarrow> [1..<9]. present ?C (stationKey i)]" by auto
  then have 1: "\<exists>pts. buildStationPoints ?P ?C False = Inr pts
        \<and> map wnum pts = [1, 2] \<and> map wkey pts = [''station_1'', ''station_2'']"
    unfolding st k by simp
  have pe: "parseCoords ?P (JObj []) = Inr (JObj [])" by (simp add: parseCoords_def)
  from buildStationPoints_total[where JSON_parse = ?P and coords = "JObj []" and parsed = "JObj []" and includeSpecial = True] pe
  have 2: "\<exists>pts. buildStationPoints ?P (JObj []) True = Inr pts \<and> pts = []" by auto
  have ps: "parseCoords ?P (JStr ''station_1: 10, 20'') = Inl SyntaxError"
    by (simp add: parseCoords_def)
  from buildStationPoints_total[where JSON_parse = ?P and coords = "JStr ''station_1: 10, 20''"
      and err = SyntaxError and includeSpecial = False] ps
  have 3: "buildStationPoints ?P (JStr ''station_1: 10, 20'') False = Inl SyntaxError" by blast
  from pc 1 2 ps 3 show ?thesis by (intro conjI)
qed

end
